theory Spec2Isabelle
  imports Complex_Main "HOL-Library.AList" "HOL-Library.Multiset"
    "HOL-Library.Code_Target_Numeral"
begin

section \<open>Strings\<close>

text \<open>
  A JavaScript string is a sequence of UTF-16 code units. The model works on code units
  below 256, one \<^typ>\<open>char\<close> each. Within that range the white space that
  \<^verbatim>\<open>String.prototype.trim\<close>, the regular-expression class \<^verbatim>\<open>\s\<close> and
  \<^verbatim>\<open>parseFloat\<close> skip is TAB, LF, VT, FF, CR, SPACE and NBSP.
\<close>

abbreviation DQ :: char where "DQ \<equiv> CHR 0x22"
abbreviation NL :: char where "NL \<equiv> CHR 0x0A"

definition is_ws :: "char \<Rightarrow> bool" where
  "is_ws c = (c \<in> set [CHR 0x09, CHR 0x0A, CHR 0x0B, CHR 0x0C, CHR 0x0D, CHR '' '', CHR 0xA0])"

definition is_digit :: "char \<Rightarrow> bool" where
  "is_digit c = (c \<in> set ''0123456789'')"

text \<open>\<^verbatim>\<open>s.trim()\<close>\<close>

definition trim :: "string \<Rightarrow> string" where
  "trim s = rev (dropWhile is_ws (rev (dropWhile is_ws s)))"

text \<open>\<^verbatim>\<open>s.split(sep)\<close> for a one-character separator; the empty string gives one empty piece.\<close>

fun split_on :: "char \<Rightarrow> string \<Rightarrow> string list" where
  "split_on sep [] = [[]]"
| "split_on sep (c # cs) =
     (if c = sep then [] # split_on sep cs
      else (case split_on sep cs of [] \<Rightarrow> [[c]] | l # ls \<Rightarrow> (c # l) # ls))"

text \<open>\<^verbatim>\<open>s.replace(/^"|"$/g, '')\<close>: one quote at the very start and one at the very end.\<close>

definition strip_quotes :: "string \<Rightarrow> string" where
  "strip_quotes s =
     (let s1 = (case s of [] \<Rightarrow> [] | c # cs \<Rightarrow> if c = DQ then cs else s)
      in if s1 \<noteq> [] \<and> last s1 = DQ then butlast s1 else s1)"

text \<open>Decimal rendering of a number inside a template literal.\<close>

fun show_nat :: "nat \<Rightarrow> string" where
  "show_nat n = (if n < 10 then [''0123456789'' ! n]
                 else show_nat (n div 10) @ [''0123456789'' ! (n mod 10)])"

declare show_nat.simps [simp del]

definition show_int :: "int \<Rightarrow> string" where
  "show_int i = (if i < 0 then CHR ''-'' # show_nat (nat (- i)) else show_nat (nat i))"

section \<open>Numbers and typed values\<close>

text \<open>
  A JavaScript number is NaN, an infinity, or a finite binary64 value; a finite value is
  kept as the rational it denotes. Zero is kept once: the sign of a zero, which nothing
  in the program tests, is dropped.
\<close>

datatype jsnum = NaN | PosInfinity | NegInfinity | Num rat

text \<open>
  Every operation of the language on numbers yields the exact result rounded to
  binary64: to the nearest value with a significand of 53 bits, a tie going to the even
  significand. The number of bits of a positive integer gives the binary exponent of a
  positive rational \<open>q\<close>: the \<open>e\<close> with \<open>2 powi e \<le> q < 2 powi (e + 1)\<close>.
\<close>

function bit_length :: "int \<Rightarrow> int" where
  "bit_length n = (if n \<le> 0 then 0 else 1 + bit_length (n div 2))"
  by auto

termination
  by (relation "measure nat") auto

declare bit_length.simps [simp del]

definition expo :: "rat \<Rightarrow> int" where
  "expo q = (if 1 \<le> q then bit_length \<lfloor>q\<rfloor> - 1 else - bit_length (\<lceil>1 / q\<rceil> - 1))"

definition round_half_even :: "rat \<Rightarrow> int" where
  "round_half_even x =
     (let f = \<lfloor>x\<rfloor>; d = x - of_int f
      in if d < 1 / 2 then f else if 1 / 2 < d then f + 1 else if even f then f else f + 1)"

text \<open>
  Rounding to binary64. The spacing of the values around \<open>q\<close> is \<open>2 powi (e - 52)\<close> for
  the exponent \<open>e\<close> of \<open>q\<close>, and \<open>2 powi (- 1074)\<close> below the normal range; what rounds
  to \<open>2 powi 1024\<close> or beyond is an infinity, what rounds to nothing is zero.
\<close>

definition round64 :: "rat \<Rightarrow> jsnum" where
  "round64 q =
     (if q = 0 then Num 0
      else (let e = max (expo \<bar>q\<bar>) (- 1022);
                ulp = 2 powi (e - 52);
                r = of_int (round_half_even (\<bar>q\<bar> / ulp)) * ulp
            in if 2 powi 1024 \<le> r then (if 0 < q then PosInfinity else NegInfinity)
               else Num (sgn q * r)))"

text \<open>The values of the cells of a row: the parser stores numbers and strings only.\<close>

datatype jsval = JNum jsnum | JStr string

type_synonym row = "(string \<times> jsval) list"

text \<open>
  A row is a plain object used as a map from names to values; it is kept as the list of
  its own properties in the order of their first assignment (JavaScript lists keys that
  look like array indices first, which nothing here depends on). \<^verbatim>\<open>obj[key] = v\<close> for
  a string or a number \<^verbatim>\<open>v\<close> makes or overwrites the property, except for the key
  \<^verbatim>\<open>__proto__\<close>: its setter ignores a value that is not an object.
\<close>

definition set_property :: "string \<Rightarrow> jsval \<Rightarrow> row \<Rightarrow> row" where
  "set_property key v obj = (if key = ''__proto__'' then obj else AList.update key v obj)"

fun digits_val :: "string \<Rightarrow> nat" where
  "digits_val ds = foldl (\<lambda>n c. 10 * n + (of_char c - 48)) 0 ds"

definition pow10 :: "int \<Rightarrow> rat" where
  "pow10 e = (if 0 \<le> e then 10 ^ nat e else 1 / 10 ^ nat (- e))"

text \<open>The exponent part after the mantissa: \<^verbatim>\<open>e\<close> or \<^verbatim>\<open>E\<close>, an optional sign and
  at least one digit; anything else is not part of the literal and counts as exponent 0.\<close>

definition exponentPart :: "string \<Rightarrow> int" where
  "exponentPart r =
     (case r of
        [] \<Rightarrow> 0
      | c # cs \<Rightarrow>
          if c = CHR ''e'' \<or> c = CHR ''E'' then
            (let eneg = (case cs of [] \<Rightarrow> False | s # _ \<Rightarrow> s = CHR ''-'');
                 ds = (case cs of [] \<Rightarrow> []
                       | s # rest \<Rightarrow> if s = CHR ''+'' \<or> s = CHR ''-'' then rest else cs);
                 digs = takeWhile is_digit ds
             in if digs = [] then 0
                else if eneg then - int (digits_val digs) else int (digits_val digs))
          else 0)"

text \<open>
  \<^verbatim>\<open>parseFloat(s)\<close>: skip leading white space, then convert the longest prefix that is
  a decimal literal (optional sign; \<^verbatim>\<open>Infinity\<close>, or digits with an optional fraction
  and exponent); NaN when there is no such prefix. Whatever follows the prefix is ignored.
  The result is the decimal value of the literal rounded to binary64, so a literal that
  is too large reads as an infinity. (For a literal of more than 20 significant digits
  the language lets an engine round one of two neighbouring decimals of 20 digits
  instead; the engines round the literal itself.)
\<close>

definition parseFloat :: "string \<Rightarrow> jsnum" where
  "parseFloat inputString =
     (let trimmedString = dropWhile is_ws inputString;
          neg = (case trimmedString of [] \<Rightarrow> False | c # _ \<Rightarrow> c = CHR ''-'');
          body = (case trimmedString of [] \<Rightarrow> []
                  | c # cs \<Rightarrow> if c = CHR ''+'' \<or> c = CHR ''-'' then cs else trimmedString)
      in if take 8 body = ''Infinity'' then (if neg then NegInfinity else PosInfinity)
         else
           (let intPart = takeWhile is_digit body;
                r1 = dropWhile is_digit body;
                fracPart = (case r1 of [] \<Rightarrow> []
                            | c # cs \<Rightarrow> if c = CHR ''.'' then takeWhile is_digit cs else []);
                r2 = (case r1 of [] \<Rightarrow> []
                      | c # cs \<Rightarrow> if c = CHR ''.'' then dropWhile is_digit cs else r1)
            in if intPart = [] \<and> fracPart = [] then NaN
               else round64 ((if neg then - 1 else 1) * of_nat (digits_val (intPart @ fracPart))
                             * pow10 (exponentPart r2 - int (length fracPart)))))"

text \<open>\<^verbatim>\<open>const numValue = parseFloat(value); isNaN(numValue) ? value : numValue\<close>\<close>

definition coerce :: "string \<Rightarrow> jsval" where
  "coerce value = (let numValue = parseFloat value
                   in if numValue = NaN then JStr value else JNum numValue)"

section \<open>The line tokenizer\<close>

text \<open>The loop of \<^verbatim>\<open>parseCSVLine\<close> over the characters of the line, with its three
  variables \<^verbatim>\<open>result\<close>, \<^verbatim>\<open>current\<close> and \<^verbatim>\<open>inQuotes\<close>; the final push is the
  empty-line case.\<close>

fun parseCSVLine_loop :: "string \<Rightarrow> string list \<Rightarrow> string \<Rightarrow> bool \<Rightarrow> string list" where
  "parseCSVLine_loop [] result current inQuotes = result @ [current]"
| "parseCSVLine_loop (c # cs) result current inQuotes =
     (if c = DQ then parseCSVLine_loop cs result current (\<not> inQuotes)
      else if c = CHR '','' \<and> \<not> inQuotes then parseCSVLine_loop cs (result @ [current]) [] inQuotes
      else parseCSVLine_loop cs result (current @ [c]) inQuotes)"

definition parseCSVLine :: "string \<Rightarrow> string list" where
  "parseCSVLine line = map (\<lambda>cell. trim (strip_quotes cell)) (parseCSVLine_loop line [] [] False)"

section \<open>The header normalizer\<close>

text \<open>\<^verbatim>\<open>s.replace(/^IOITSecure\d+\s*>\s*/g, '')\<close>: the three classes are pairwise
  disjoint, so the greedy match never backtracks into a success, and with the anchor the
  global flag finds at most the one match at the start.\<close>

definition strip_device_prefix :: "string \<Rightarrow> string" where
  "strip_device_prefix s =
     (if take 10 s = ''IOITSecure'' then
        (let r = drop 10 s; ds = takeWhile is_digit r; r1 = dropWhile is_ws (dropWhile is_digit r)
         in if ds = [] then s
            else (case r1 of [] \<Rightarrow> s
                  | c # r2 \<Rightarrow> if c = CHR ''>'' then dropWhile is_ws r2 else s))
      else s)"

fun cleanHeaders_loop :: "string list \<Rightarrow> string list \<Rightarrow> (string \<rightharpoonup> nat) \<Rightarrow> string list" where
  "cleanHeaders_loop [] cleaned seen = cleaned"
| "cleanHeaders_loop (header # hs) cleaned seen =
     (let cleanHeader = strip_device_prefix (trim header)
      in case seen cleanHeader of
           Some n \<Rightarrow>
             (let count = n + 1
              in cleanHeaders_loop hs (cleaned @ [cleanHeader @ '' '' @ show_nat count])
                   (seen(cleanHeader \<mapsto> count)))
         | None \<Rightarrow> cleanHeaders_loop hs (cleaned @ [cleanHeader]) (seen(cleanHeader \<mapsto> 1)))"

definition cleanHeaders :: "string list \<Rightarrow> string list" where
  "cleanHeaders headers = cleanHeaders_loop headers [] Map.empty"

section \<open>The row parsers\<close>

text \<open>The errors of the parser, by the message of the \<^verbatim>\<open>Error\<close> thrown:
  \<^verbatim>\<open>Empty CSV content\<close>, \<^verbatim>\<open>CSV must have at least a header row and one data row\<close>,
  \<^verbatim>\<open>Invalid CSV format: Not enough rows\<close>, and \<^verbatim>\<open>Failed to parse CSV: ...\<close>
  wrapping whatever the selected parser threw; the engine's \<^verbatim>\<open>RangeError\<close> is what a
  call with too many arguments throws.\<close>

datatype error = EmptyInputError | InsufficientRowsError | InvalidFormatError | RangeError
  | FailedToParseError error

text \<open>\<^verbatim>\<open>/^[^,]*;[^,]*/\<close> tested against a line: scan from the start; a semicolon
  reached before any comma is a match, a comma or the end of the line first is none.\<close>

fun match_semicolon_cell :: "string \<Rightarrow> bool" where
  "match_semicolon_cell [] = False"
| "match_semicolon_cell (c # cs) =
     (if c = CHR '';'' then True else if c = CHR '','' then False else match_semicolon_cell cs)"

definition detectCompoundFormat :: "string \<Rightarrow> string \<Rightarrow> bool" where
  "detectCompoundFormat firstRow secondRow =
     (let firstCellMatch = match_semicolon_cell firstRow;
          secondCellMatch = match_semicolon_cell secondRow
      in firstCellMatch \<and> secondCellMatch)"

text \<open>\<^verbatim>\<open>headers.forEach((header, i) => { if (i < values.length) row[header] = ... })\<close>:
  the second equation is the guard failing, once the cells have run out.\<close>

fun standard_row :: "string list \<Rightarrow> string list \<Rightarrow> row \<Rightarrow> row" where
  "standard_row [] values row = row"
| "standard_row (header # hs) [] row = standard_row hs [] row"
| "standard_row (header # hs) (value # vs) row =
     standard_row hs vs (set_property header (coerce value) row)"

text \<open>The inner \<^verbatim>\<open>values.forEach\<close> of the compound parser, on the pair of the row
  under construction and \<^verbatim>\<open>headerIndex\<close>.\<close>

fun compound_values :: "string list \<Rightarrow> string list \<Rightarrow> row \<times> nat \<Rightarrow> row \<times> nat" where
  "compound_values headers [] st = st"
| "compound_values headers (value # vs) (row, headerIndex) =
     (if headerIndex < length headers
      then compound_values headers vs
             (set_property (headers ! headerIndex) (coerce value) row, headerIndex + 1)
      else compound_values headers vs (row, headerIndex))"

text \<open>\<^verbatim>\<open>cells.forEach((cell, cellIndex) => ...)\<close>\<close>

fun compound_cells :: "string list \<Rightarrow> nat \<Rightarrow> string list \<Rightarrow> row \<times> nat \<Rightarrow> row \<times> nat" where
  "compound_cells headers cellIndex [] st = st"
| "compound_cells headers cellIndex (cell # cs) (row, headerIndex) =
     compound_cells headers (cellIndex + 1) cs
       (if CHR '';'' \<in> set cell
        then compound_values headers (map trim (split_on CHR '';'' cell)) (row, headerIndex)
        else if headerIndex < length headers then
          (let value = trim cell
           in if cellIndex = 0 \<and>
                 (CHR ''/'' \<in> set value \<or> CHR '':'' \<in> set value \<or> CHR ''-'' \<in> set value)
              then (set_property (headers ! headerIndex) (JStr value) row, headerIndex + 1)
              else (set_property (headers ! headerIndex) (coerce value) row, headerIndex + 1))
        else (row, headerIndex))"

text \<open>The body of the \<^verbatim>\<open>for\<close> loop over the data lines: blank lines are skipped, a
  row without keys is not pushed.\<close>

definition compound_line :: "string list \<Rightarrow> row list \<Rightarrow> string \<Rightarrow> row list" where
  "compound_line headers data rawLine =
     (let line = trim rawLine
      in if line = [] then data
         else (let cells = parseCSVLine line;
                   row = fst (compound_cells headers 0 cells ([], 0))
               in if length row > 0 then data @ [row] else data))"

text \<open>
  The raw headers of the first line: \<^verbatim>\<open>firstRow.forEach\<close> on the array
  \<^verbatim>\<open>compoundHeaders\<close>. The pieces of a cell with semicolons are appended by one spread
  call, \<^verbatim>\<open>compoundHeaders.push(...subHeaders)\<close>, which passes every piece as an
  argument of its own. An engine takes only so many arguments in one call and throws a
  \<^verbatim>\<open>RangeError\<close> beyond; the bound differs from engine to engine and is the parameter
  \<open>maxArguments\<close>. The exception leaves the loop and the parser.
\<close>

fun compound_headers :: "nat \<Rightarrow> string list \<Rightarrow> string list \<Rightarrow> error + string list" where
  "compound_headers maxArguments [] compoundHeaders = Inr compoundHeaders"
| "compound_headers maxArguments (cell # cs) compoundHeaders =
     (if CHR '';'' \<in> set cell then
        (let subHeaders = map trim (split_on CHR '';'' cell)
         in if maxArguments < length subHeaders then Inl RangeError
            else compound_headers maxArguments cs (compoundHeaders @ subHeaders))
      else compound_headers maxArguments cs (compoundHeaders @ [trim cell]))"

datatype format = Standard | Compound

record ParsedCSVResult =
  headers :: "string list"
  data :: "row list"
  isMultiMetric :: bool
  originalFormat :: format

text \<open>\<^verbatim>\<open>split\<close> returns at least one piece, so \<^verbatim>\<open>lines[0]\<close> always exists.\<close>

definition parseStandardCSV :: "string \<Rightarrow> ParsedCSVResult" where
  "parseStandardCSV csvText =
     (let lines = split_on NL (trim csvText);
          headers = map (\<lambda>h. strip_quotes (trim h)) (split_on CHR '','' (lines ! 0));
          data = filter (\<lambda>row. length row > 0)
                   (map (\<lambda>line. standard_row headers (parseCSVLine line) []) (drop 1 lines))
      in \<lparr>headers = headers, data = data, isMultiMetric = False, originalFormat = Standard\<rparr>)"

definition parseCompoundCSV :: "nat \<Rightarrow> string \<Rightarrow> error + ParsedCSVResult" where
  "parseCompoundCSV maxArguments csvText =
     (let lines = split_on NL (trim csvText)
      in if length lines < 2 then Inl InvalidFormatError
         else (let firstRow = parseCSVLine (lines ! 0)
               in case compound_headers maxArguments firstRow [] of
                    Inl e \<Rightarrow> Inl e
                  | Inr compoundHeaders \<Rightarrow>
                      (let headers = cleanHeaders compoundHeaders;
                           data = foldl (compound_line headers) [] (drop 1 lines)
                       in Inr \<lparr>headers = headers, data = data, isMultiMetric = True,
                                originalFormat = Compound\<rparr>)))"

section \<open>The entry point\<close>

text \<open>The \<^verbatim>\<open>try\<close> block holds both parsers; only the compound one can throw.\<close>

definition parseCSV :: "nat \<Rightarrow> string \<Rightarrow> error + ParsedCSVResult" where
  "parseCSV maxArguments csvText =
     (if csvText = [] \<or> length (trim csvText) = 0 then Inl EmptyInputError
      else (let lines = split_on NL (trim csvText)
            in if length lines < 2 then Inl InsufficientRowsError
               else (let isCompound = detectCompoundFormat (lines ! 0) (lines ! 1)
                     in if isCompound
                        then (case parseCompoundCSV maxArguments csvText of
                                Inl e \<Rightarrow> Inl (FailedToParseError e)
                              | Inr r \<Rightarrow> Inr r)
                        else Inr (parseStandardCSV csvText))))"

section \<open>Number arithmetic\<close>

text \<open>The operator \<^verbatim>\<open>+\<close> on numbers: NaN absorbs, opposite infinities give NaN, an
  infinity absorbs every finite value; the sum of two finite values is rounded to
  binary64, so that it may be an infinity, and adding is not associative. The
  number \<open>0\<close> is the start value of \<^verbatim>\<open>reduce\<close>.\<close>

instantiation jsnum :: "{zero, plus}"
begin

definition zero_jsnum :: jsnum where
  "zero_jsnum = Num 0"

fun plus_jsnum :: "jsnum \<Rightarrow> jsnum \<Rightarrow> jsnum" where
  "plus_jsnum NaN y = NaN"
| "plus_jsnum x NaN = NaN"
| "plus_jsnum PosInfinity NegInfinity = NaN"
| "plus_jsnum NegInfinity PosInfinity = NaN"
| "plus_jsnum PosInfinity y = PosInfinity"
| "plus_jsnum x PosInfinity = PosInfinity"
| "plus_jsnum NegInfinity y = NegInfinity"
| "plus_jsnum x NegInfinity = NegInfinity"
| "plus_jsnum (Num a) (Num b) = round64 (a + b)"

instance ..

end

text \<open>\<^verbatim>\<open>values.reduce((a, b) => a + b, 0)\<close>: from the left, in the order of the array.\<close>

definition js_sum :: "jsnum list \<Rightarrow> jsnum" where
  "js_sum values = foldl (+) 0 values"

text \<open>\<^verbatim>\<open>x / values.length\<close>; the length of an array is a binary64 value itself.\<close>

fun js_div :: "jsnum \<Rightarrow> nat \<Rightarrow> jsnum" where
  "js_div NaN n = NaN"
| "js_div PosInfinity n = PosInfinity"
| "js_div NegInfinity n = NegInfinity"
| "js_div (Num a) n =
     (if n = 0 then (if 0 < a then PosInfinity else if a < 0 then NegInfinity else NaN)
      else round64 (a / of_nat n))"

text \<open>
  \<^verbatim>\<open>parseFloat(x.toFixed(2))\<close>. A whole number prints as its digits followed by
  \<^verbatim>\<open>.00\<close> (from \<^verbatim>\<open>1e21\<close> on, where every binary64 value is whole, as the number
  itself) and reads back as itself; this holds for a row count as well, which is a whole
  number below \<open>2 ^ 32\<close>. Any other value prints as the nearest number of two decimals,
  a tie going away from zero, and reads back as that decimal rounded to binary64. NaN
  and the infinities print as their names, which \<^verbatim>\<open>parseFloat\<close> reads back.
\<close>

fun toFixed2 :: "jsnum \<Rightarrow> jsnum" where
  "toFixed2 (Num x) =
     (if of_int \<lfloor>x\<rfloor> = x then Num x
      else round64 (sgn x * of_int \<lfloor>\<bar>x\<bar> * 100 + 1 / 2\<rfloor> / 100))"
| "toFixed2 x = x"

section \<open>Dates\<close>

text \<open>
  A valid \<^verbatim>\<open>Date\<close>, as far as the chart reads it: its calendar day in local time, as
  a count of days from 1970-01-01, and the second within that day. The getters are
  computed from the day count by the proleptic Gregorian calendar, so every value of
  the record is a date that exists.
\<close>

record jsdate =
  localDay :: int
  localSecond :: nat

definition days_from_civil :: "int \<Rightarrow> int \<Rightarrow> int \<Rightarrow> int" where
  "days_from_civil y m d =
     (let y1 = (if m \<le> 2 then y - 1 else y);
          era = y1 div 400;
          yoe = y1 - era * 400;
          doy = (153 * (if m > 2 then m - 3 else m + 9) + 2) div 5 + d - 1;
          doe = yoe * 365 + yoe div 4 - yoe div 100 + doy
      in era * 146097 + doe - 719468)"

text \<open>Year, month (1 to 12) and day of the month of a day count.\<close>

definition civil_from_days :: "int \<Rightarrow> int \<times> int \<times> int" where
  "civil_from_days z =
     (let z1 = z + 719468;
          era = z1 div 146097;
          doe = z1 - era * 146097;
          yoe = (doe - doe div 1460 + doe div 36524 - doe div 146096) div 365;
          doy = doe - (365 * yoe + yoe div 4 - yoe div 100);
          mp = (5 * doy + 2) div 153;
          d = doy - (153 * mp + 2) div 5 + 1;
          m = (if mp < 10 then mp + 3 else mp - 9)
      in (yoe + era * 400 + (if m \<le> 2 then 1 else 0), m, d))"

definition getFullYear :: "jsdate \<Rightarrow> int" where
  "getFullYear date = fst (civil_from_days (localDay date))"

definition getMonth :: "jsdate \<Rightarrow> nat" where
  "getMonth date = nat (fst (snd (civil_from_days (localDay date))) - 1)"

definition getDate :: "jsdate \<Rightarrow> nat" where
  "getDate date = nat (snd (snd (civil_from_days (localDay date))))"

definition getDay :: "jsdate \<Rightarrow> nat" where
  "getDay date = nat ((localDay date + 4) mod 7)"

definition getHours :: "jsdate \<Rightarrow> nat" where
  "getHours date = localSecond date div 3600 mod 24"

definition getMinutes :: "jsdate \<Rightarrow> nat" where
  "getMinutes date = localSecond date div 60 mod 60"

definition getSeconds :: "jsdate \<Rightarrow> nat" where
  "getSeconds date = localSecond date mod 60"

text \<open>\<^verbatim>\<open>Date.UTC(year, month, day)\<close> in days; a year from 0 to 99 means 1900 + year.\<close>

definition date_UTC :: "int \<Rightarrow> nat \<Rightarrow> nat \<Rightarrow> int" where
  "date_UTC year month day =
     days_from_civil (if 0 \<le> year \<and> year \<le> 99 then 1900 + year else year)
       (int month + 1) (int day)"

definition getWeekNumber :: "jsdate \<Rightarrow> int" where
  "getWeekNumber date =
     (let d = date_UTC (getFullYear date) (getMonth date) (getDate date);
          utcDay = (d + 4) mod 7;
          dayNum = (if utcDay = 0 then 7 else utcDay);
          d1 = d + 4 - dayNum;
          yearStart = date_UTC (fst (civil_from_days d1)) 0 1
      in - ((- (d1 - yearStart + 1)) div 7))"

text \<open>\<^verbatim>\<open>n.toString().padStart(2, '0')\<close>\<close>

definition pad2 :: "nat \<Rightarrow> string" where
  "pad2 n = (if n < 10 then CHR ''0'' # show_nat n else show_nat n)"

definition formatDateWithSeconds :: "jsdate \<Rightarrow> string" where
  "formatDateWithSeconds date =
     (let hours = pad2 (getHours date);
          minutes = pad2 (getMinutes date);
          seconds = pad2 (getSeconds date);
          month = pad2 (getMonth date + 1);
          day = pad2 (getDate date)
      in month @ ''/'' @ day @ '' '' @ hours @ '':'' @ minutes @ '':'' @ seconds)"

text \<open>
  \<^verbatim>\<open>parseDate\<close>: a missing or falsy value is no date; otherwise the \<^verbatim>\<open>Date\<close>
  constructor decides. What the constructor accepts depends on the engine and the time
  zone, so it is the parameter \<open>newDate\<close>, with \<open>None\<close> for an invalid date.
\<close>

fun falsy :: "jsval \<Rightarrow> bool" where
  "falsy (JStr s) = (s = [])"
| "falsy (JNum NaN) = True"
| "falsy (JNum (Num x)) = (x = 0)"
| "falsy (JNum _) = False"

definition parseDate :: "(jsval \<Rightarrow> jsdate option) \<Rightarrow> jsval option \<Rightarrow> jsdate option" where
  "parseDate newDate value =
     (case value of None \<Rightarrow> None | Some v \<Rightarrow> if falsy v then None else newDate v)"

section \<open>The time-series aggregator\<close>

datatype TimeGrouping = none | days | weeks | months

datatype AggregationMethod = MSum | MAverage | MCount

datatype ViewMode = single | multi

datatype js_error = TypeError

definition DAY_ABBR :: "string list" where
  "DAY_ABBR = [''Sun'', ''Mon'', ''Tue'', ''Wed'', ''Thu'', ''Fri'', ''Sat'']"

definition MONTH_ABBR :: "string list" where
  "MONTH_ABBR = [''Jan'', ''Feb'', ''Mar'', ''Apr'', ''May'', ''Jun'', ''Jul'', ''Aug'', ''Sep'',
                 ''Oct'', ''Nov'', ''Dec'']"

text \<open>A bucket under construction: the observations per value column, the number of
  rows, the label.\<close>

record group =
  gvalues :: "(string \<times> jsnum list) list"
  gcount :: nat
  glabel :: string

text \<open>The \<^verbatim>\<open>switch (timeGrouping)\<close>; outside its three cases key and label keep their
  initial empty strings.\<close>

fun groupKeyLabel :: "TimeGrouping \<Rightarrow> jsdate \<Rightarrow> string \<times> string" where
  "groupKeyLabel days date = (show_nat (getDay date), DAY_ABBR ! getDay date)"
| "groupKeyLabel weeks date =
     (let weekNum = getWeekNumber date
      in (show_int (getFullYear date) @ ''-W'' @ show_int weekNum, ''Week '' @ show_int weekNum))"
| "groupKeyLabel months date =
     (show_int (getFullYear date) @ ''-'' @ show_nat (getMonth date), MONTH_ABBR ! getMonth date)"
| "groupKeyLabel none date = ([], [])"

text \<open>\<^verbatim>\<open>if (!group.values.has(k)) group.values.set(k, []); group.values.get(k).push(v)\<close>\<close>

definition push_value :: "(string \<times> jsnum list) list \<Rightarrow> string \<Rightarrow> jsnum \<Rightarrow> (string \<times> jsnum list) list" where
  "push_value vals yAxisKey yValue =
     (case map_of vals yAxisKey of
        None \<Rightarrow> vals @ [(yAxisKey, [yValue])]
      | Some vs \<Rightarrow> AList.update yAxisKey (vs @ [yValue]) vals)"

text \<open>One row into its bucket: every selected column whose value is a number adds an
  observation, then the row is counted.\<close>

definition accumulate_row :: "string list \<Rightarrow> row \<Rightarrow> group \<Rightarrow> group" where
  "accumulate_row yAxesToAggregate row g =
     (let g1 = foldl (\<lambda>group yAxisKey.
                  case map_of row yAxisKey of
                    Some (JNum yValue) \<Rightarrow>
                      group\<lparr>gvalues := push_value (gvalues group) yAxisKey yValue\<rparr>
                  | _ \<Rightarrow> group) g yAxesToAggregate
      in g1\<lparr>gcount := gcount g1 + 1\<rparr>)"

text \<open>The body of \<^verbatim>\<open>data.forEach\<close> on the insertion-ordered \<^verbatim>\<open>Map\<close> of buckets.\<close>

definition group_row ::
  "(jsval \<Rightarrow> jsdate option) \<Rightarrow> string \<Rightarrow> string list \<Rightarrow> TimeGrouping \<Rightarrow>
   (string \<times> group) list \<Rightarrow> row \<Rightarrow> (string \<times> group) list" where
  "group_row newDate xAxis yAxesToAggregate timeGrouping grouped row =
     (case parseDate newDate (map_of row xAxis) of
        None \<Rightarrow> grouped
      | Some date \<Rightarrow>
          (let (groupKey, groupLabel) = groupKeyLabel timeGrouping date
           in case map_of grouped groupKey of
                None \<Rightarrow>
                  grouped @ [(groupKey, accumulate_row yAxesToAggregate row
                                          \<lparr>gvalues = [], gcount = 0, glabel = groupLabel\<rparr>)]
              | Some g \<Rightarrow>
                  AList.update groupKey (accumulate_row yAxesToAggregate row g) grouped))"

text \<open>One output row per bucket: the object literal with the computed key \<^verbatim>\<open>[xAxis]\<close>
  and the key \<^verbatim>\<open>_originalKey\<close>, then one assignment per selected column.\<close>

definition aggregate_group :: "string \<Rightarrow> string list \<Rightarrow> AggregationMethod \<Rightarrow> string \<times> group \<Rightarrow> row" where
  "aggregate_group xAxis yAxesToAggregate aggregationMethod entry =
     (let key = fst entry; group = snd entry
      in foldl (\<lambda>aggregatedRow yAxisKey.
           let values = (case map_of (gvalues group) yAxisKey of None \<Rightarrow> [] | Some vs \<Rightarrow> vs);
               aggregatedValue =
                 (if length values > 0 then
                    (case aggregationMethod of
                       MSum \<Rightarrow> js_sum values
                     | MAverage \<Rightarrow> js_div (js_sum values) (length values)
                     | MCount \<Rightarrow> Num (of_nat (gcount group)))
                  else 0)
           in set_property yAxisKey (JNum (toFixed2 aggregatedValue)) aggregatedRow)
         (AList.update ''_originalKey'' (JStr key) [(xAxis, JStr (glabel group))])
         yAxesToAggregate)"

text \<open>\<^verbatim>\<open>Array.prototype.sort\<close> with a comparator: a stable sort, here by insertion.\<close>

fun insert_by :: "('a \<Rightarrow> 'a \<Rightarrow> int) \<Rightarrow> 'a \<Rightarrow> 'a list \<Rightarrow> 'a list" where
  "insert_by cmp x [] = [x]"
| "insert_by cmp x (y # ys) = (if cmp x y \<le> 0 then x # y # ys else y # insert_by cmp x ys)"

definition sort_by :: "('a \<Rightarrow> 'a \<Rightarrow> int) \<Rightarrow> 'a list \<Rightarrow> 'a list" where
  "sort_by cmp xs = foldr (insert_by cmp) xs []"

text \<open>\<^verbatim>\<open>ABBR.indexOf(row[xAxis])\<close>: the position of a label, \<open>-1\<close> for anything else.\<close>

fun index_from :: "int \<Rightarrow> string list \<Rightarrow> string \<Rightarrow> int" where
  "index_from i [] s = - 1"
| "index_from i (x # xs) s = (if x = s then i else index_from (i + 1) xs s)"

definition indexOf :: "string list \<Rightarrow> jsval option \<Rightarrow> int" where
  "indexOf abbr v = (case v of Some (JStr s) \<Rightarrow> index_from 0 abbr s | _ \<Rightarrow> - 1)"

definition originalKey :: "row \<Rightarrow> string" where
  "originalKey r = (case map_of r ''_originalKey'' of Some (JStr k) \<Rightarrow> k | _ \<Rightarrow> [])"

text \<open>
  \<^verbatim>\<open>processedData\<close>. The parameters are the values the memo depends on, the \<^verbatim>\<open>Date\<close>
  constructor and the collation \<^verbatim>\<open>localeCompare\<close> of the engine; \<open>isDateAxis\<close>, which the
  component computes from the first rows of the data, is one of these values and is
  taken as it comes. With grouping by weeks
  the comparator calls \<^verbatim>\<open>localeCompare\<close> on \<^verbatim>\<open>_originalKey\<close>; when a selected column
  has that name the field holds a number in every output row, and sorting two or more
  rows raises a TypeError.
\<close>

definition processedData ::
  "(jsval \<Rightarrow> jsdate option) \<Rightarrow> (string \<Rightarrow> string \<Rightarrow> int) \<Rightarrow> row list \<Rightarrow> string \<Rightarrow> string \<Rightarrow>
   string list \<Rightarrow> ViewMode \<Rightarrow> TimeGrouping \<Rightarrow> AggregationMethod \<Rightarrow> bool \<Rightarrow> js_error + row list" where
  "processedData newDate localeCompare rows xAxis yAxis selectedYAxes viewMode timeGrouping
     aggregationMethod isDateAxis =
     (if timeGrouping = none then
        Inr (map (\<lambda>row.
               if isDateAxis then
                 (let dateValue = map_of row xAxis
                  in case (dateValue, parseDate newDate dateValue) of
                       (Some v, Some date) \<Rightarrow>
                         set_property ''_originalTimestamp'' v
                           (set_property xAxis (JStr (formatDateWithSeconds date)) row)
                     | _ \<Rightarrow> row)
               else row) rows)
      else if \<not> isDateAxis then Inr (take 50 rows)
      else
        (let yAxesToAggregate = (if viewMode = multi then selectedYAxes else [yAxis]);
             grouped = foldl (group_row newDate xAxis yAxesToAggregate timeGrouping) [] rows;
             result = map (aggregate_group xAxis yAxesToAggregate aggregationMethod) grouped
         in if timeGrouping = days then
              Inr (sort_by (\<lambda>a b. indexOf DAY_ABBR (map_of a xAxis) - indexOf DAY_ABBR (map_of b xAxis))
                     result)
            else if timeGrouping = weeks then
              (if ''_originalKey'' \<in> set yAxesToAggregate \<and> 2 \<le> length result then Inl TypeError
               else Inr (sort_by (\<lambda>a b. localeCompare (originalKey a) (originalKey b)) result))
            else if timeGrouping = months then
              Inr (sort_by (\<lambda>a b. indexOf MONTH_ABBR (map_of a xAxis) - indexOf MONTH_ABBR (map_of b xAxis))
                     result)
            else Inr result))"

section \<open>Notions used to state the properties\<close>

subsection \<open>Tokenizer\<close>

text \<open>
  The cells of a line as the tokenizer's contract describes them: a double quote toggles
  the quoted state, a comma outside quotes ends the cell, every other character and every
  comma inside quotes is content. The quote characters are kept here, so that the pieces
  are the text of the line between the separating commas.
\<close>

fun raw_cells :: "bool \<Rightarrow> string \<Rightarrow> string list" where
  "raw_cells inQuotes [] = [[]]"
| "raw_cells inQuotes (c # cs) =
     (if c = DQ then (case raw_cells (\<not> inQuotes) cs of [] \<Rightarrow> [[c]] | l # ls \<Rightarrow> (c # l) # ls)
      else if c = CHR '','' \<and> \<not> inQuotes then [] # raw_cells inQuotes cs
      else (case raw_cells inQuotes cs of [] \<Rightarrow> [[c]] | l # ls \<Rightarrow> (c # l) # ls))"

text \<open>A single pair of enclosing double quotes stripped.\<close>

definition strip_enclosing_quotes :: "string \<Rightarrow> string" where
  "strip_enclosing_quotes cell =
     (if 2 \<le> length cell \<and> hd cell = DQ \<and> last cell = DQ then butlast (tl cell) else cell)"

text \<open>The tokenizer of the contract: each cell with its enclosing pair of quotes stripped,
  then trimmed.\<close>

definition tokenize_spec :: "string \<Rightarrow> string list" where
  "tokenize_spec line = map (\<lambda>cell. trim (strip_enclosing_quotes cell)) (raw_cells False line)"

text \<open>Every double quote removed.\<close>

definition unquote :: "string \<Rightarrow> string" where
  "unquote cell = filter (\<lambda>c. c \<noteq> DQ) cell"

subsection \<open>Lines and header names\<close>

text \<open>The non-empty lines of a text: the pieces between line feeds that hold something
  other than white space.\<close>

definition nonempty_lines :: "string \<Rightarrow> string list" where
  "nonempty_lines text = filter (\<lambda>l. trim l \<noteq> []) (split_on NL text)"

text \<open>The cleaned name of a raw header, before deduplication.\<close>

definition cleanName :: "string \<Rightarrow> string" where
  "cleanName header = strip_device_prefix (trim header)"

text \<open>The name given to the k-th occurrence of a cleaned name.\<close>

definition occurrence_name :: "string \<Rightarrow> nat \<Rightarrow> string" where
  "occurrence_name c k = (if k = 1 then c else c @ '' '' @ show_nat k)"

subsection \<open>Header lines beyond the engine's bound\<close>

text \<open>
  A text whose header line is more than the engine takes: the text, trimmed, has two
  lines or more, the first comma-delimited cell of the first and of the second line both
  hold a semicolon, and some cell of the first line, as the tokenizer cuts it, falls into
  more semicolon-separated pieces than a call takes arguments.
\<close>

definition header_overflow :: "nat \<Rightarrow> string \<Rightarrow> bool" where
  "header_overflow maxArguments text =
     (let lines = split_on NL (trim text)
      in 2 \<le> length lines \<and>
         CHR '';'' \<in> set (hd (split_on CHR '','' (lines ! 0))) \<and>
         CHR '';'' \<in> set (hd (split_on CHR '','' (lines ! 1))) \<and>
         (\<exists>cell\<in>set (parseCSVLine (lines ! 0)).
            CHR '';'' \<in> set cell \<and> maxArguments < length (split_on CHR '';'' cell)))"

subsection \<open>Buckets\<close>

text \<open>The bucket a row falls into: the key computed from its time value, none when the
  time value does not parse as a date.\<close>

definition bucket_key :: "(jsval \<Rightarrow> jsdate option) \<Rightarrow> string \<Rightarrow> TimeGrouping \<Rightarrow> row \<Rightarrow> string option" where
  "bucket_key newDate xAxis timeGrouping row =
     (case parseDate newDate (map_of row xAxis) of
        None \<Rightarrow> None
      | Some date \<Rightarrow> Some (fst (groupKeyLabel timeGrouping date)))"

text \<open>The rows contributing to a bucket, and the rows with a time value that parses.\<close>

definition bucket_rows :: "(jsval \<Rightarrow> jsdate option) \<Rightarrow> string \<Rightarrow> TimeGrouping \<Rightarrow> string \<Rightarrow> row list \<Rightarrow> row list" where
  "bucket_rows newDate xAxis timeGrouping key rows =
     filter (\<lambda>row. bucket_key newDate xAxis timeGrouping row = Some key) rows"

definition dated_rows :: "(jsval \<Rightarrow> jsdate option) \<Rightarrow> string \<Rightarrow> row list \<Rightarrow> row list" where
  "dated_rows newDate xAxis rows = filter (\<lambda>row. parseDate newDate (map_of row xAxis) \<noteq> None) rows"

text \<open>The numeric observations of a column in a list of rows, in order.\<close>

definition observations :: "string \<Rightarrow> row list \<Rightarrow> jsnum list" where
  "observations y rows =
     concat (map (\<lambda>row. case map_of row y of Some (JNum v) \<Rightarrow> [v] | _ \<Rightarrow> []) rows)"

text \<open>The same when the list of selected columns may name a column more than once: each
  row gives its observation once for every time the column is selected.\<close>

definition selected_observations :: "string list \<Rightarrow> string \<Rightarrow> row list \<Rightarrow> jsnum list" where
  "selected_observations ys y rows =
     concat (map (\<lambda>row. case map_of row y of
                          Some (JNum v) \<Rightarrow> replicate (count_list ys y) v
                        | _ \<Rightarrow> []) rows)"

text \<open>The value of a bucket before it is rounded, from the observations of the column and
  the number of rows of the bucket.\<close>

definition bucket_value :: "AggregationMethod \<Rightarrow> jsnum list \<Rightarrow> nat \<Rightarrow> jsnum" where
  "bucket_value m obs n =
     (if obs \<noteq> [] then
        (case m of
           MSum \<Rightarrow> js_sum obs
         | MAverage \<Rightarrow> js_div (js_sum obs) (length obs)
         | MCount \<Rightarrow> Num (of_nat n))
      else 0)"

text \<open>What the buckets under construction hold for a key: observations and row count.\<close>

definition group_obs :: "group \<Rightarrow> string \<Rightarrow> jsnum list" where
  "group_obs g y = (case map_of (gvalues g) y of None \<Rightarrow> [] | Some vs \<Rightarrow> vs)"

definition count_in :: "(string \<times> group) list \<Rightarrow> string \<Rightarrow> nat" where
  "count_in G k = (case map_of G k of None \<Rightarrow> 0 | Some g \<Rightarrow> gcount g)"

definition obs_in :: "(string \<times> group) list \<Rightarrow> string \<Rightarrow> string \<Rightarrow> jsnum list" where
  "obs_in G k y = (case map_of G k of None \<Rightarrow> [] | Some g \<Rightarrow> group_obs g y)"

text \<open>A \<^verbatim>\<open>Date\<close> constructor for the examples: it accepts the two strings
  \<^verbatim>\<open>1970-01-05\<close> and \<^verbatim>\<open>1970-01-06\<close>, a Monday and a Tuesday, and nothing else.\<close>

definition example_newDate :: "jsval \<Rightarrow> jsdate option" where
  "example_newDate v =
     (if v = JStr ''1970-01-05'' then Some \<lparr>localDay = 4, localSecond = 0\<rparr>
      else if v = JStr ''1970-01-06'' then Some \<lparr>localDay = 5, localSecond = 0\<rparr>
      else None)"

section \<open>Properties of rounding to binary64\<close>

lemma bit_length_nonneg: "0 \<le> bit_length n"
  by (induction n rule: bit_length.induct) (subst bit_length.simps, simp)

lemma bit_length_pos: "0 < n \<Longrightarrow> 0 < bit_length n"
  using bit_length_nonneg [of "n div 2"] by (subst bit_length.simps) simp

lemma bit_length_bounds: "0 < n \<Longrightarrow> 2 ^ nat (bit_length n - 1) \<le> n \<and> n < 2 ^ nat (bit_length n)"
proof (induction n rule: bit_length.induct)
  case (1 n)
  from 1(2) have n: "\<not> n \<le> 0" by simp
  have b: "bit_length n = 1 + bit_length (n div 2)"
    using n by (subst bit_length.simps) simp
  show ?case
  proof (cases "n div 2 \<le> 0")
    case True
    with 1(2) have "n = 1" by linarith
    then show ?thesis by (simp add: bit_length.simps)
  next
    case False
    then have h: "0 < n div 2" by simp
    note IH = 1(1) [OF n h]
    have p: "0 < bit_length (n div 2)"
      using h by (rule bit_length_pos)
    then have e: "nat (bit_length (n div 2)) = Suc (nat (bit_length (n div 2) - 1))"
      by simp
    have e2: "nat (1 + bit_length (n div 2)) = Suc (nat (bit_length (n div 2)))"
      using p by simp
    show ?thesis
      unfolding b e2 using IH e by simp linarith
  qed
qed

text \<open>The exponent is what its name says, and nothing else is.\<close>

lemma expo_bounds:
  assumes "0 < q"
  shows "2 powi expo q \<le> q \<and> q < 2 powi (expo q + 1)"
proof (cases "1 \<le> q")
  case True
  let ?n = "\<lfloor>q\<rfloor>"
  let ?L = "bit_length ?n"
  have n: "0 < ?n" using True by simp
  have L: "0 < ?L" using n by (rule bit_length_pos)
  have e: "expo q = ?L - 1" using True by (simp add: expo_def)
  from bit_length_bounds [OF n] have b: "2 ^ nat (?L - 1) \<le> ?n" "?n < 2 ^ nat ?L"
    by simp_all
  have "(2::rat) powi (?L - 1) = of_int (2 ^ nat (?L - 1))"
    using L by (simp add: power_int_def)
  also have "\<dots> \<le> of_int ?n" using b(1) by (simp only: of_int_le_iff)
  also have "\<dots> \<le> q" by simp
  finally have lo: "2 powi (?L - 1) \<le> q" .
  have "?n + 1 \<le> 2 ^ nat ?L" using b(2) by simp
  then have "(of_int (?n + 1) :: rat) \<le> of_int (2 ^ nat ?L)" by (simp only: of_int_le_iff)
  moreover have "q < of_int (?n + 1)" by linarith
  ultimately have "q < of_int (2 ^ nat ?L)" by simp
  also have "\<dots> = 2 powi ?L" using L by (simp add: power_int_def)
  finally have hi: "q < 2 powi ?L" .
  show ?thesis unfolding e using lo hi by simp
next
  case False
  let ?m = "\<lceil>1 / q\<rceil> - 1"
  let ?L = "bit_length ?m"
  have p: "1 < 1 / q" using False assms by simp
  then have m: "0 < ?m" by linarith
  have L: "0 < ?L" using m by (rule bit_length_pos)
  have e: "expo q = - ?L" using False by (simp add: expo_def)
  from bit_length_bounds [OF m] have b: "2 ^ nat (?L - 1) \<le> ?m" "?m < 2 ^ nat ?L"
    by simp_all
  have "1 / q \<le> of_int (?m + 1)" by simp
  also have "\<dots> \<le> of_int (2 ^ nat ?L)" using b(2) by (simp only: of_int_le_iff)
  also have "\<dots> = 2 powi ?L" using L by (simp add: power_int_def)
  finally have "1 / q \<le> 2 powi ?L" .
  then have "1 \<le> 2 powi ?L * q" using assms by (simp add: field_simps)
  then have lo: "2 powi (- ?L) \<le> q"
    by (simp add: power_int_minus field_simps)
  have "(2::rat) powi (?L - 1) = of_int (2 ^ nat (?L - 1))"
    using L by (simp add: power_int_def)
  also have "\<dots> \<le> of_int ?m" using b(1) by (simp only: of_int_le_iff)
  also have "\<dots> < 1 / q" by linarith
  finally have "2 powi (?L - 1) < 1 / q" .
  then have "2 powi (?L - 1) * q < 1" using assms by (simp add: field_simps)
  then have hi: "q < 2 powi (- ?L + 1)"
    by (simp add: power_int_minus power_int_diff power_int_add field_simps)
  show ?thesis unfolding e using lo hi by simp
qed


lemma powi_less_imp_less:
  assumes "(2::rat) powi m < 2 powi n"
  shows "m < n"
proof (rule ccontr)
  assume "\<not> m < n"
  then have "n \<le> m" by simp
  then have "(2::rat) powi n \<le> 2 powi m"
    by (rule power_int_increasing) simp
  with assms show False by simp
qed

lemma expo_unique:
  assumes "0 < q" "2 powi e \<le> q" "q < 2 powi (e + 1)"
  shows "expo q = e"
proof -
  note b = expo_bounds [OF assms(1)]
  have "(2::rat) powi expo q < 2 powi (e + 1)"
    using b assms(3) by simp
  then have 1: "expo q < e + 1"
    by (rule powi_less_imp_less)
  have "(2::rat) powi e < 2 powi (expo q + 1)"
    using b assms(2) by simp
  then have 2: "e < expo q + 1"
    by (rule powi_less_imp_less)
  from 1 2 show ?thesis by simp
qed

lemma round_half_even_of_int: "round_half_even (of_int k) = k"
  by (simp add: round_half_even_def)

text \<open>A value that is a multiple of the spacing at its exponent, below the overflow
  threshold, is a binary64 value: rounding returns it.\<close>

lemma round64_exact:
  assumes "q \<noteq> 0" "\<bar>q\<bar> < 2 powi 1024"
    and "\<bar>q\<bar> = of_int k * 2 powi (max (expo \<bar>q\<bar>) (- 1022) - 52)"
  shows "round64 q = Num q"
proof -
  let ?u = "(2::rat) powi (max (expo \<bar>q\<bar>) (- 1022) - 52)"
  have u: "?u \<noteq> 0" by simp
  have "\<bar>q\<bar> / ?u = of_int k"
    using assms(3) u by (simp add: field_simps)
  then have "of_int (round_half_even (\<bar>q\<bar> / ?u)) * ?u = \<bar>q\<bar>"
    using assms(3) by (simp add: round_half_even_of_int)
  moreover have "sgn q * \<bar>q\<bar> = q"
    by (simp add: sgn_mult_abs)
  ultimately show ?thesis
    using assms(1,2) by (simp add: round64_def Let_def)
qed


text \<open>So is every \<open>k * 2 powi e\<close> with a significand \<open>k\<close> of at most 53 bits, in
  particular every whole number below \<open>2 ^ 53\<close>.\<close>

lemma round64_dyadic:
  assumes "k \<noteq> 0" "\<bar>k\<bar> < 2 ^ 53" "- 1074 \<le> e" "of_int \<bar>k\<bar> * 2 powi e < (2::rat) powi 1024"
  shows "round64 (of_int k * 2 powi e) = Num (of_int k * 2 powi e)"
proof -
  let ?q = "of_int k * (2::rat) powi e"
  have a: "\<bar>?q\<bar> = of_int \<bar>k\<bar> * 2 powi e"
    by (simp add: abs_mult)
  have pos: "0 < \<bar>?q\<bar>"
    using assms(1) by simp
  note b = expo_bounds [OF pos]
  have "(of_int \<bar>k\<bar> :: rat) < of_int (2 ^ 53)"
    using assms(2) by (simp only: of_int_less_iff)
  then have "of_int \<bar>k\<bar> * (2::rat) powi e < 2 powi 53 * 2 powi e"
    by simp
  also have "\<dots> = 2 powi (53 + e)"
    by (simp add: power_int_add)
  finally have "2 powi expo \<bar>?q\<bar> < (2::rat) powi (53 + e)"
    using b unfolding a by simp
  then have "expo \<bar>?q\<bar> < 53 + e"
    by (rule powi_less_imp_less)
  then have u: "max (expo \<bar>?q\<bar>) (- 1022) - 52 \<le> e"
    using assms(3) by simp
  define u where "u = max (expo \<bar>?q\<bar>) (- 1022) - 52"
  have "(2::rat) powi e = 2 powi (e - u) * 2 powi u"
    by (simp flip: power_int_add)
  also have "(2::rat) powi (e - u) = of_int (2 ^ nat (e - u))"
    using u by (simp add: power_int_def u_def)
  finally have "\<bar>?q\<bar> = of_int (\<bar>k\<bar> * 2 ^ nat (e - u)) * 2 powi u"
    unfolding a by simp
  then have eq: "\<bar>?q\<bar> =
      of_int (\<bar>k\<bar> * 2 ^ nat (e - u)) * 2 powi (max (expo \<bar>?q\<bar>) (- 1022) - 52)"
    unfolding u_def .
  have ne: "?q \<noteq> 0"
    using assms(1) by simp
  have lt: "\<bar>?q\<bar> < 2 powi 1024"
    unfolding a using assms(4) .
  show ?thesis
    using ne lt eq by (rule round64_exact)
qed

lemma round64_of_int:
  assumes "\<bar>k\<bar> < 2 ^ 53"
  shows "round64 (of_int k) = Num (of_int k)"
proof (cases "k = 0")
  case True
  then show ?thesis by (simp add: round64_def)
next
  case False
  have "(of_int \<bar>k\<bar> :: rat) < of_int (2 ^ 53)"
    using assms by (simp only: of_int_less_iff)
  also have "\<dots> < 2 powi 1024"
    by simp
  finally show ?thesis
    using round64_dyadic [OF False assms, of 0] by simp
qed

lemma round64_numeral:
  "numeral n < (2::int) ^ 53 \<Longrightarrow> round64 (numeral n) = Num (numeral n)"
  using round64_of_int [of "numeral n"] by simp

lemma round64_zero: "round64 0 = Num 0"
  by (simp add: round64_def)

lemma round64_one: "round64 1 = Num 1"
  using round64_of_int [of 1] by simp

text \<open>A value of the normal range that is not binary64: the exponent and the rounded
  significand give the result.\<close>

lemma round64_normal:
  assumes "0 < q" "2 powi e \<le> q" "q < 2 powi (e + 1)" "- 1022 \<le> e"
    and "round_half_even (q / 2 powi (e - 52)) = m" "of_int m * 2 powi (e - 52) < (2::rat) powi 1024"
  shows "round64 q = Num (of_int m * 2 powi (e - 52))"
proof -
  have "expo \<bar>q\<bar> = e"
    using assms(1-3) by (intro expo_unique) simp_all
  then show ?thesis
    using assms by (simp add: round64_def Let_def max_def)
qed

lemma round_half_even_tie:
  assumes "x = of_int f + 1 / 2" "even f"
  shows "round_half_even x = f"
proof -
  have "\<lfloor>x\<rfloor> = f"
    using assms(1) by (intro floor_unique) simp_all
  then show ?thesis
    using assms by (simp add: round_half_even_def Let_def)
qed

text \<open>What lies at or beyond \<open>2 powi 1024\<close> rounds to the infinity.\<close>

lemma round_half_even_ge_floor: "\<lfloor>x\<rfloor> \<le> round_half_even x"
  by (simp add: round_half_even_def Let_def)

lemma powi_split: "(2::rat) powi k * 2 powi (e - k) = 2 powi e"
  by (simp flip: power_int_add)

lemma round64_overflow:
  assumes "2 powi 1024 \<le> q"
  shows "round64 q = PosInfinity"
proof -
  have pos: "0 < q"
    using assms by (rule less_le_trans [rotated]) simp
  let ?e = "expo q"
  let ?u = "(2::rat) powi (?e - 52)"
  note b = expo_bounds [OF pos]
  have "(2::rat) powi 1024 < 2 powi (?e + 1)"
    using assms b by simp
  then have e: "1024 \<le> ?e"
    using powi_less_imp_less [of 1024 "?e + 1"] by simp
  have u: "0 < ?u" by simp
  have s: "(2::rat) powi 52 * ?u = 2 powi ?e"
    by (rule powi_split)
  then have "2 powi 52 * ?u \<le> q"
    using b by simp
  then have "(2::rat) powi 52 \<le> q / ?u"
    using u by (simp add: pos_le_divide_eq)
  then have "of_int (2 ^ 52) \<le> q / ?u"
    by simp
  then have "(2::int) ^ 52 \<le> \<lfloor>q / ?u\<rfloor>"
    by (simp only: le_floor_iff)
  then have "(2::int) ^ 52 \<le> round_half_even (q / ?u)"
    using round_half_even_ge_floor [of "q / ?u"] by (rule order_trans)
  then have "(of_int (2 ^ 52) :: rat) \<le> of_int (round_half_even (q / ?u))"
    by (simp only: of_int_le_iff)
  then have r: "(2::rat) powi 52 \<le> of_int (round_half_even (q / ?u))"
    by simp
  have "(2::rat) powi 1024 \<le> 2 powi ?e"
    using e by (intro power_int_increasing) simp_all
  also have "\<dots> = 2 powi 52 * ?u"
    by (rule s [symmetric])
  also have "\<dots> \<le> of_int (round_half_even (q / ?u)) * ?u"
    using r u by (intro mult_right_mono) simp_all
  finally have "2 powi 1024 \<le> of_int (round_half_even (q / ?u)) * ?u" .
  moreover have "max ?e (- 1022) = ?e"
    using e by simp
  ultimately show ?thesis
    using pos by (simp add: round64_def Let_def)
qed

section \<open>Properties of the tokenizer\<close>

lemma raw_cells_nonempty: "raw_cells q l \<noteq> []"
  by (induction l arbitrary: q) (auto split: list.splits)

text \<open>The loop against the cells of the contract, for any state it is started in.\<close>

lemma parseCSVLine_loop_raw_cells:
  "parseCSVLine_loop l res cur q =
     res @ (cur @ unquote (hd (raw_cells q l))) # map unquote (tl (raw_cells q l))"
proof (induction l arbitrary: res cur q)
  case Nil
  show ?case by (simp add: unquote_def)
next
  case (Cons c cs)
  show ?case
  proof (cases "c = DQ")
    case True
    obtain l ls where "raw_cells (\<not> q) cs = l # ls"
      using raw_cells_nonempty by (cases "raw_cells (\<not> q) cs") auto
    with True Cons show ?thesis by (simp add: unquote_def)
  next
    case False
    show ?thesis
    proof (cases "c = CHR '','' \<and> \<not> q")
      case True
      with False Cons show ?thesis
        using raw_cells_nonempty [of q cs] by (cases "raw_cells q cs") (auto simp add: unquote_def)
    next
      case sep: False
      obtain l ls where "raw_cells q cs = l # ls"
        using raw_cells_nonempty by (cases "raw_cells q cs") auto
      with False sep Cons show ?thesis by (auto simp add: unquote_def)
    qed
  qed
qed

lemma strip_quotes_id: "DQ \<notin> set s \<Longrightarrow> strip_quotes s = s"
proof (cases s)
  case Nil
  then show ?thesis by (simp add: strip_quotes_def)
next
  case (Cons c cs)
  assume "DQ \<notin> set s"
  moreover have "last s \<in> set s" using Cons by simp
  ultimately have "c \<noteq> DQ" "last s \<noteq> DQ" using Cons by auto
  with Cons show ?thesis by (simp add: strip_quotes_def)
qed

lemma DQ_notin_unquote: "DQ \<notin> set (unquote s)"
  by (simp add: unquote_def)

text \<open>
  C10, as the code has it. The tokenizer returns, for every cell of the line (cells end
  at the commas outside quotes, a double quote toggling the quoted state), the text of
  the cell with every double quote removed and the surrounding white space trimmed. It is
  a total function: no line, whatever its quotes, makes it fail.
\<close>

theorem parseCSVLine_cells:
  "parseCSVLine line = map (\<lambda>cell. trim (unquote cell)) (raw_cells False line)"
proof -
  obtain l ls where r: "raw_cells False line = l # ls"
    using raw_cells_nonempty by (cases "raw_cells False line") auto
  have "parseCSVLine_loop line [] [] False = map unquote (raw_cells False line)"
    by (simp add: parseCSVLine_loop_raw_cells r)
  then show ?thesis
    by (simp add: parseCSVLine_def strip_quotes_id DQ_notin_unquote)
qed

text \<open>
  C10 as stated fails: in the line \<^verbatim>\<open>a"b"c\<close> the one cell has no enclosing pair of
  quotes, so the contract's tokenizer returns it unchanged, while the code returns
  \<^verbatim>\<open>abc\<close>.
\<close>

theorem parseCSVLine_not_tokenize_spec:
  "parseCSVLine (''a'' @ [DQ] @ ''b'' @ [DQ] @ ''c'') = [''abc''] \<and>
   tokenize_spec (''a'' @ [DQ] @ ''b'' @ [DQ] @ ''c'') = [''a'' @ [DQ] @ ''b'' @ [DQ] @ ''c'']"
  by (simp add: parseCSVLine_def tokenize_spec_def strip_quotes_def strip_enclosing_quotes_def
      trim_def is_ws_def)

section \<open>Lists of characters\<close>

lemma split_on_nonempty: "split_on sep s \<noteq> []"
  by (induction s) (auto split: list.splits)

lemma hd_split_on: "hd (split_on sep s) = takeWhile (\<lambda>c. c \<noteq> sep) s"
  using split_on_nonempty [of sep] by (induction s) (auto split: list.splits)

lemma split_on_snoc:
  "split_on sep (s @ [c]) =
     (if c = sep then split_on sep s @ [[]]
      else butlast (split_on sep s) @ [last (split_on sep s) @ [c]])"
proof (induction s)
  case Nil
  show ?case by simp
next
  case (Cons a s)
  obtain l ls where l: "split_on sep s = l # ls"
    using split_on_nonempty by (cases "split_on sep s") auto
  show ?case
  proof (cases "c = sep")
    case True
    with Cons l show ?thesis by simp
  next
    case False
    with Cons l show ?thesis by (cases ls) auto
  qed
qed

lemma last_split_on:
  assumes "u \<noteq> []" "last u \<noteq> sep"
  shows "last u \<in> set (last (split_on sep u))"
proof -
  have "split_on sep (butlast u @ [last u]) =
        butlast (split_on sep (butlast u)) @ [last (split_on sep (butlast u)) @ [last u]]"
    using assms(2) by (simp only: split_on_snoc if_False)
  then have "last (split_on sep (butlast u @ [last u])) = last (split_on sep (butlast u)) @ [last u]"
    by (simp only: last_snoc)
  then show ?thesis
    using assms(1) by simp
qed

lemma hd_split_on_mem:
  assumes "u \<noteq> []" "hd u \<noteq> sep"
  shows "hd u \<in> set (hd (split_on sep u))"
  using assms unfolding hd_split_on by (cases u) auto

lemma dropWhile_all_iff: "(\<forall>x\<in>set (dropWhile P s). P x) \<longleftrightarrow> (\<forall>x\<in>set s. P x)"
proof
  assume a: "\<forall>x\<in>set (dropWhile P s). P x"
  have "dropWhile P s = []"
  proof (rule ccontr)
    assume n: "dropWhile P s \<noteq> []"
    then have "\<not> P (hd (dropWhile P s))" by (rule hd_dropWhile)
    moreover have "hd (dropWhile P s) \<in> set (dropWhile P s)" using n by simp
    ultimately show False using a by blast
  qed
  then show "\<forall>x\<in>set s. P x" by (simp only: dropWhile_eq_Nil_conv)
next
  assume "\<forall>x\<in>set s. P x"
  then show "\<forall>x\<in>set (dropWhile P s). P x"
    by (blast dest: set_dropWhileD)
qed

lemma last_dropWhile: "dropWhile P xs \<noteq> [] \<Longrightarrow> last (dropWhile P xs) = last xs"
  by (induction xs) (auto split: if_splits)

lemma trim_Nil_iff: "trim s = [] \<longleftrightarrow> (\<forall>c\<in>set s. is_ws c)"
  by (simp add: trim_def dropWhile_eq_Nil_conv dropWhile_all_iff)

text \<open>A trimmed string that is not empty starts and ends with something other than
  white space, and such a string is its own trimming.\<close>

lemma trim_ends:
  assumes "trim t \<noteq> []"
  shows "\<not> is_ws (hd (trim t))" and "\<not> is_ws (last (trim t))"
proof -
  let ?d = "dropWhile is_ws t"
  let ?e = "dropWhile is_ws (rev ?d)"
  have e: "?e \<noteq> []" using assms by (simp add: trim_def)
  have d: "?d \<noteq> []"
  proof
    assume "?d = []"
    then have "?e = []" by (simp only: rev.simps dropWhile.simps)
    with e show False by simp
  qed
  have "last (trim t) = hd ?e"
    using e by (simp add: trim_def last_rev)
  then show "\<not> is_ws (last (trim t))"
    using hd_dropWhile [OF e] by simp
  have "hd (trim t) = last ?e"
    using e by (simp add: trim_def hd_rev)
  also have "\<dots> = last (rev ?d)"
    using e by (rule last_dropWhile)
  also have "\<dots> = hd ?d"
    using d by (simp add: last_rev)
  finally show "\<not> is_ws (hd (trim t))"
    using hd_dropWhile [OF d] by simp
qed

lemma trim_id:
  assumes "s \<noteq> []" "\<not> is_ws (hd s)" "\<not> is_ws (last s)"
  shows "trim s = s"
proof -
  have "dropWhile is_ws s = s"
    using assms by (cases s) simp_all
  moreover have "dropWhile is_ws (rev s) = rev s"
    using assms by (cases "rev s") (simp_all add: hd_rev)
  ultimately show ?thesis by (simp add: trim_def)
qed

lemma NL_is_ws: "is_ws NL"
  by (simp add: is_ws_def)

lemma ws_not_digit: "is_ws c \<Longrightarrow> \<not> is_digit c"
  by (auto simp add: is_ws_def is_digit_def)

lemma parseCSVLine_nonempty: "parseCSVLine line \<noteq> []"
proof -
  have "parseCSVLine_loop line [] [] False \<noteq> []"
    by (simp add: parseCSVLine_loop_raw_cells)
  then show ?thesis by (simp add: parseCSVLine_def)
qed

lemmas str_eval = trim_def is_ws_def is_digit_def strip_quotes_def Let_def set_property_def
lemmas num_eval = parseFloat_def exponentPart_def pow10_def coerce_def
  round64_numeral round64_one round64_zero

section \<open>Properties of format detection and of the entry point\<close>

lemma match_semicolon_cell_iff:
  "match_semicolon_cell l \<longleftrightarrow> CHR '';'' \<in> set (hd (split_on CHR '','' l))"
  unfolding hd_split_on by (induction l) auto

lemma detectCompoundFormat_iff:
  "detectCompoundFormat l1 l2 \<longleftrightarrow>
     CHR '';'' \<in> set (hd (split_on CHR '','' l1)) \<and> CHR '';'' \<in> set (hd (split_on CHR '','' l2))"
  by (simp add: detectCompoundFormat_def match_semicolon_cell_iff)

text \<open>The header loop fails exactly when some cell has more pieces than a call takes
  arguments; otherwise it returns the pieces of all cells in order.\<close>

lemma compound_headers_result:
  "compound_headers m cells acc =
     (if \<exists>cell\<in>set cells. CHR '';'' \<in> set cell \<and> m < length (split_on CHR '';'' cell)
      then Inl RangeError
      else Inr (acc @ concat (map (\<lambda>cell. if CHR '';'' \<in> set cell
                                             then map trim (split_on CHR '';'' cell)
                                             else [trim cell]) cells)))"
  by (induction cells arbitrary: acc) (auto simp add: Let_def)

lemma parseCompoundCSV_result:
  assumes "2 \<le> length (split_on NL (trim text))"
  shows "(\<exists>cell\<in>set (parseCSVLine (split_on NL (trim text) ! 0)).
            CHR '';'' \<in> set cell \<and> m < length (split_on CHR '';'' cell)) \<and>
         parseCompoundCSV m text = Inl RangeError \<or>
         \<not> (\<exists>cell\<in>set (parseCSVLine (split_on NL (trim text) ! 0)).
            CHR '';'' \<in> set cell \<and> m < length (split_on CHR '';'' cell)) \<and>
         (\<exists>r. parseCompoundCSV m text = Inr r \<and> originalFormat r = Compound)"
  using assms by (simp add: parseCompoundCSV_def Let_def compound_headers_result)

text \<open>
  C4, as the code has it. The lines are those of the trimmed text. When there are two of
  them or more, the entry point returns what the compound parser returns (a failure of
  it wrapped) if the first comma-delimited cell of the first line and that of the second
  line both hold a semicolon, and what the standard parser returns otherwise; the format
  recorded in a result says which of the two it was.
\<close>

theorem parseCSV_selects_parser:
  assumes "2 \<le> length (split_on NL (trim text))"
  shows "parseCSV maxArguments text =
           (if CHR '';'' \<in> set (hd (split_on CHR '','' (split_on NL (trim text) ! 0))) \<and>
               CHR '';'' \<in> set (hd (split_on CHR '','' (split_on NL (trim text) ! 1)))
            then (case parseCompoundCSV maxArguments text of
                    Inl e \<Rightarrow> Inl (FailedToParseError e)
                  | Inr r \<Rightarrow> Inr r)
            else Inr (parseStandardCSV text)) \<and>
         (\<forall>r. parseCSV maxArguments text = Inr r \<longrightarrow>
            (originalFormat r = Compound \<longleftrightarrow>
               CHR '';'' \<in> set (hd (split_on CHR '','' (split_on NL (trim text) ! 0))) \<and>
               CHR '';'' \<in> set (hd (split_on CHR '','' (split_on NL (trim text) ! 1)))))"
proof -
  have "trim text \<noteq> []"
    using assms by (cases "trim text") auto
  moreover from this have "text \<noteq> []"
    by (auto simp add: trim_def)
  ultimately have ne: "text \<noteq> []" "trim text \<noteq> []"
    by simp_all
  note c = parseCompoundCSV_result [OF assms, of maxArguments]
  have s: "originalFormat (parseStandardCSV text) = Standard"
    by (simp add: parseStandardCSV_def Let_def)
  have p: "parseCSV maxArguments text =
           (if CHR '';'' \<in> set (hd (split_on CHR '','' (split_on NL (trim text) ! 0))) \<and>
               CHR '';'' \<in> set (hd (split_on CHR '','' (split_on NL (trim text) ! 1)))
            then (case parseCompoundCSV maxArguments text of
                    Inl e \<Rightarrow> Inl (FailedToParseError e)
                  | Inr r \<Rightarrow> Inr r)
            else Inr (parseStandardCSV text))"
    using assms ne by (simp add: parseCSV_def Let_def detectCompoundFormat_iff)
  show ?thesis
    using p c s by auto
qed

lemma trim_example_texts:
  "trim (''T;V'' @ [NL] @ ''1:00,5;6'') = ''T;V'' @ [NL] @ ''1:00,5;6''"
  "trim (''T;V'' @ [NL] @ ''1;5,6'') = ''T;V'' @ [NL] @ ''1;5,6''"
  "trim (NL # ''T;V'' @ [NL] @ ''1;5'') = ''T;V'' @ [NL] @ ''1;5''"
  "trim (''T;V'' @ [NL, NL] @ ''1;5'') = ''T;V'' @ [NL, NL] @ ''1;5''"
  "trim (''T;V'' @ [NL]) = ''T;V''"
  by (simp_all add: trim_def is_ws_def)

text \<open>C4 at two texts, for an engine that takes 65536 arguments in a call: a timestamp
  cell without semicolon in the second line selects the standard parser, a semicolon in
  both first cells the compound one.\<close>

theorem parseCSV_selects_parser_witness:
  "2 \<le> length (split_on NL (trim (''T;V'' @ [NL] @ ''1:00,5;6''))) \<and>
   parseCSV 65536 (''T;V'' @ [NL] @ ''1:00,5;6'') = Inr (parseStandardCSV (''T;V'' @ [NL] @ ''1:00,5;6'')) \<and>
   2 \<le> length (split_on NL (trim (''T;V'' @ [NL] @ ''1;5,6''))) \<and>
   parseCSV 65536 (''T;V'' @ [NL] @ ''1;5,6'') =
     (case parseCompoundCSV 65536 (''T;V'' @ [NL] @ ''1;5,6'') of
        Inl e \<Rightarrow> Inl (FailedToParseError e) | Inr r \<Rightarrow> Inr r)"
proof -
  note t = trim_example_texts(1,2)
  have l: "2 \<le> length (split_on NL (trim (''T;V'' @ [NL] @ ''1:00,5;6'')))"
    "2 \<le> length (split_on NL (trim (''T;V'' @ [NL] @ ''1;5,6'')))"
    unfolding t by simp_all
  show ?thesis
    using l parseCSV_selects_parser [OF l(1), of 65536] parseCSV_selects_parser [OF l(2), of 65536]
    unfolding t by simp
qed

text \<open>
  C4 as stated fails, whichever lines are meant. The text of an empty line followed by
  \<^verbatim>\<open>T;V\<close> and \<^verbatim>\<open>1;5\<close> has a first line without semicolon, and the compound parser
  is selected. In the text of \<^verbatim>\<open>T;V\<close>, an empty line and \<^verbatim>\<open>1;5\<close> the first two
  lines that are not empty both start with a cell that holds a semicolon, and the
  standard parser is selected. The text \<^verbatim>\<open>T;V\<close> with a line feed after it has two
  lines, and no parser is selected: the entry point fails.
\<close>

theorem parseCSV_selects_by_trimmed_text:
  "split_on NL (NL # ''T;V'' @ [NL] @ ''1;5'') = [[], ''T;V'', ''1;5''] \<and>
   parseCSV 65536 (NL # ''T;V'' @ [NL] @ ''1;5'') =
     Inr \<lparr>headers = [''T'', ''V''], data = [[(''T'', JNum (Num 1)), (''V'', JNum (Num 5))]],
          isMultiMetric = True, originalFormat = Compound\<rparr> \<and>
   nonempty_lines (''T;V'' @ [NL, NL] @ ''1;5'') = [''T;V'', ''1;5''] \<and>
   parseCSV 65536 (''T;V'' @ [NL, NL] @ ''1;5'') =
     Inr \<lparr>headers = [''T;V''], data = [[(''T;V'', JStr [])], [(''T;V'', JNum (Num 1))]],
          isMultiMetric = False, originalFormat = Standard\<rparr> \<and>
   split_on NL (''T;V'' @ [NL]) = [''T;V'', []] \<and>
   parseCSV 65536 (''T;V'' @ [NL]) = Inl InsufficientRowsError"
proof -
  let ?a = "NL # ''T;V'' @ [NL] @ ''1;5''"
  let ?b = "''T;V'' @ [NL, NL] @ ''1;5''"
  let ?c = "''T;V'' @ [NL]"
  note t = trim_example_texts(3,4,5)
  have c: "parseCSVLine ''T;V'' = [''T;V'']" "parseCSVLine ''1;5'' = [''1;5'']"
    "parseCSVLine [] = [[]]"
    by (simp_all add: parseCSVLine_def str_eval)
  have tr: "trim ''1;5'' = ''1;5''" "trim ''T'' = ''T''" "trim ''V'' = ''V''"
    "trim ''1'' = ''1''" "trim ''5'' = ''5''"
    by (simp_all add: str_eval)
  have f: "coerce ''1'' = JNum (Num 1)" "coerce ''5'' = JNum (Num 5)"
    "coerce ''1;5'' = JNum (Num 1)" "coerce [] = JStr []"
    by (simp_all add: num_eval str_eval)
  have h2: "cleanHeaders [''T'', ''V''] = [''T'', ''V'']"
    by (simp add: cleanHeaders_def strip_device_prefix_def str_eval)
  have r: "compound_line [''T'', ''V''] [] ''1;5'' = [[(''T'', JNum (Num 1)), (''V'', JNum (Num 5))]]"
    by (simp add: compound_line_def tr c f set_property_def)
  have a: "parseCSV 65536 ?a =
     Inr \<lparr>headers = [''T'', ''V''], data = [[(''T'', JNum (Num 1)), (''V'', JNum (Num 5))]],
          isMultiMetric = True, originalFormat = Compound\<rparr>"
    unfolding parseCSV_def parseCompoundCSV_def t
    by (simp add: detectCompoundFormat_def c tr h2 r)
  have "parseStandardCSV ?b =
     \<lparr>headers = [''T;V''], data = [[(''T;V'', JStr [])], [(''T;V'', JNum (Num 1))]],
          isMultiMetric = False, originalFormat = Standard\<rparr>"
    unfolding parseStandardCSV_def t by (simp add: c f str_eval)
  then have b: "parseCSV 65536 ?b =
     Inr \<lparr>headers = [''T;V''], data = [[(''T;V'', JStr [])], [(''T;V'', JNum (Num 1))]],
          isMultiMetric = False, originalFormat = Standard\<rparr>"
    unfolding parseCSV_def t by (simp add: detectCompoundFormat_def)
  have n: "nonempty_lines ?b = [''T;V'', ''1;5'']"
    by (simp add: nonempty_lines_def trim_def is_ws_def)
  have d: "parseCSV 65536 ?c = Inl InsufficientRowsError"
    unfolding parseCSV_def t by simp
  show ?thesis
    using a b n d by simp
qed

subsection \<open>Errors\<close>

lemma nonempty_lines_ws_Cons:
  assumes "is_ws c"
  shows "length (nonempty_lines (c # s)) = length (nonempty_lines s)"
proof -
  obtain l ls where l: "split_on NL s = l # ls"
    using split_on_nonempty by (cases "split_on NL s") auto
  show ?thesis
  proof (cases "c = NL")
    case True
    then show ?thesis
      by (simp add: nonempty_lines_def trim_Nil_iff)
  next
    case False
    with assms l show ?thesis
      by (simp add: nonempty_lines_def trim_Nil_iff)
  qed
qed

lemma nonempty_lines_ws_snoc:
  assumes "is_ws c"
  shows "length (nonempty_lines (s @ [c])) = length (nonempty_lines s)"
proof -
  have ne: "split_on NL s \<noteq> []" by (rule split_on_nonempty)
  then have bl: "split_on NL s = butlast (split_on NL s) @ [last (split_on NL s)]"
    by simp
  show ?thesis
  proof (cases "c = NL")
    case True
    then show ?thesis
      by (simp add: nonempty_lines_def split_on_snoc trim_Nil_iff)
  next
    case False
    have "length (filter (\<lambda>l. trim l \<noteq> []) (split_on NL s)) =
          length (filter (\<lambda>l. trim l \<noteq> []) (butlast (split_on NL s) @ [last (split_on NL s)]))"
      using bl by simp
    with False assms show ?thesis
      by (simp add: nonempty_lines_def split_on_snoc trim_Nil_iff)
  qed
qed

lemma nonempty_lines_dropWhile:
  "length (nonempty_lines (dropWhile is_ws s)) = length (nonempty_lines s)"
  by (induction s) (simp_all add: nonempty_lines_ws_Cons)

lemma nonempty_lines_rev_dropWhile:
  "length (nonempty_lines (rev (dropWhile is_ws (rev s)))) = length (nonempty_lines s)"
  by (induction s rule: rev_induct) (simp_all add: nonempty_lines_ws_snoc)

lemma nonempty_lines_trim: "length (nonempty_lines (trim s)) = length (nonempty_lines s)"
  by (simp add: trim_def nonempty_lines_rev_dropWhile nonempty_lines_dropWhile)

text \<open>In a text that starts and ends with something other than white space, the first
  and the last line are not empty: two lines are two non-empty lines.\<close>

lemma two_lines_two_nonempty:
  assumes "u \<noteq> []" "\<not> is_ws (hd u)" "\<not> is_ws (last u)"
  shows "length (split_on NL u) < 2 \<longleftrightarrow> length (nonempty_lines u) < 2"
proof
  assume "length (split_on NL u) < 2"
  moreover have "length (nonempty_lines u) \<le> length (split_on NL u)"
    by (simp add: nonempty_lines_def)
  ultimately show "length (nonempty_lines u) < 2" by simp
next
  assume c: "length (nonempty_lines u) < 2"
  show "length (split_on NL u) < 2"
  proof (rule ccontr)
    assume "\<not> length (split_on NL u) < 2"
    then obtain l0 rest where l: "split_on NL u = l0 # rest" and r: "rest \<noteq> []"
      by (cases "split_on NL u"; cases "tl (split_on NL u)") auto
    have "hd u \<noteq> NL" "last u \<noteq> NL"
      using assms NL_is_ws by auto
    then have "hd u \<in> set (hd (split_on NL u))" "last u \<in> set (last (split_on NL u))"
      using assms(1) by (simp_all add: hd_split_on_mem last_split_on)
    then have "hd u \<in> set l0" "last u \<in> set (last rest)"
      using l r by simp_all
    then have n: "trim l0 \<noteq> []" "trim (last rest) \<noteq> []"
      using assms by (auto simp add: trim_Nil_iff)
    have "rest = butlast rest @ [last rest]" using r by simp
    then have "split_on NL u = l0 # butlast rest @ [last rest]" using l by simp
    then have "2 \<le> length (nonempty_lines u)"
      using n by (simp add: nonempty_lines_def)
    with c show False by simp
  qed
qed

lemma lines_of_trim:
  assumes "trim text \<noteq> []"
  shows "length (split_on NL (trim text)) < 2 \<longleftrightarrow> length (nonempty_lines text) < 2"
  using two_lines_two_nonempty [OF assms trim_ends [OF assms]]
  by (simp add: nonempty_lines_trim)

lemma header_overflow_lines:
  "header_overflow m text \<Longrightarrow> 2 \<le> length (split_on NL (trim text))"
  by (simp add: header_overflow_def Let_def)

text \<open>
  C3, as the code has it. The entry point fails with the empty-input error exactly on
  the texts without content (empty, or white space only); with the insufficient-rows
  error exactly on the texts that have content but fewer than two non-empty lines; with
  the error that wraps a failure of the selected parser exactly on the texts whose header
  line is more than the engine takes, the failure being the engine's
  \<^verbatim>\<open>RangeError\<close>; and on every other text it returns a result.
\<close>

theorem parseCSV_errors:
  "(parseCSV maxArguments text = Inl EmptyInputError \<longleftrightarrow> (\<forall>c\<in>set text. is_ws c)) \<and>
   (parseCSV maxArguments text = Inl InsufficientRowsError \<longleftrightarrow>
      (\<exists>c\<in>set text. \<not> is_ws c) \<and> length (nonempty_lines text) < 2) \<and>
   (parseCSV maxArguments text = Inl (FailedToParseError RangeError) \<longleftrightarrow>
      header_overflow maxArguments text) \<and>
   ((\<exists>c\<in>set text. \<not> is_ws c) \<and> 2 \<le> length (nonempty_lines text) \<and>
    \<not> header_overflow maxArguments text \<longrightarrow>
      (\<exists>r. parseCSV maxArguments text = Inr r))"
proof (cases "trim text = []")
  case True
  then have "parseCSV maxArguments text = Inl EmptyInputError"
    by (simp add: parseCSV_def)
  moreover have "\<not> header_overflow maxArguments text"
    using True header_overflow_lines [of maxArguments "text"] by auto
  ultimately show ?thesis
    using True by (auto simp add: trim_Nil_iff)
next
  case False
  then have t: "text \<noteq> []" by (auto simp add: trim_def)
  have w: "\<exists>c\<in>set text. \<not> is_ws c"
    using False by (simp add: trim_Nil_iff)
  show ?thesis
  proof (cases "length (split_on NL (trim text)) < 2")
    case True
    then have "parseCSV maxArguments text = Inl InsufficientRowsError"
      using False t by (simp add: parseCSV_def Let_def)
    moreover have "\<not> header_overflow maxArguments text"
      using True header_overflow_lines [of maxArguments "text"] by auto
    ultimately show ?thesis
      using True w lines_of_trim [OF False] by auto
  next
    case l: False
    then have l2: "2 \<le> length (split_on NL (trim text))" by simp
    have n: "2 \<le> length (nonempty_lines text)"
      using l lines_of_trim [OF False] by simp
    note c = parseCompoundCSV_result [OF l2, of maxArguments]
    have p: "parseCSV maxArguments text =
        (if detectCompoundFormat (split_on NL (trim text) ! 0) (split_on NL (trim text) ! 1)
         then (case parseCompoundCSV maxArguments text of
                 Inl e \<Rightarrow> Inl (FailedToParseError e) | Inr r \<Rightarrow> Inr r)
         else Inr (parseStandardCSV text))"
      using False t l by (simp add: parseCSV_def Let_def)
    show ?thesis
    proof (cases "header_overflow maxArguments text")
      case True
      then have "parseCSV maxArguments text = Inl (FailedToParseError RangeError)"
        unfolding p using c by (auto simp add: header_overflow_def Let_def detectCompoundFormat_iff)
      with True w n show ?thesis by auto
    next
      case o: False
      then have "\<exists>r. parseCSV maxArguments text = Inr r"
        unfolding p using c l2
        by (auto simp add: header_overflow_def Let_def detectCompoundFormat_iff)
      with o w n show ?thesis by auto
    qed
  qed
qed

text \<open>C3 at five texts: nothing, blanks only, one line, two lines the second of which
  has a quote that is never closed and fewer cells than the header, and, for an engine
  that takes two arguments in a call, a header cell of three pieces.\<close>

theorem parseCSV_errors_witness:
  "parseCSV 65536 [] = Inl EmptyInputError \<and>
   parseCSV 65536 ('' '' @ [NL]) = Inl EmptyInputError \<and>
   parseCSV 65536 (''a,b'' @ [NL]) = Inl InsufficientRowsError \<and>
   (\<exists>r. parseCSV 65536 (''a,b'' @ [NL] @ [DQ] @ ''x'') = Inr r) \<and>
   parseCSV 2 (''a;b;c'' @ [NL] @ ''1;2;3'') = Inl (FailedToParseError RangeError)"
proof -
  have n: "nonempty_lines (''a,b'' @ [NL]) = [''a,b'']"
    "nonempty_lines (''a,b'' @ [NL] @ [DQ] @ ''x'') = [''a,b'', [DQ] @ ''x'']"
    by (simp_all add: nonempty_lines_def trim_def is_ws_def)
  have t: "trim (''a,b'' @ [NL] @ [DQ] @ ''x'') = ''a,b'' @ [NL] @ [DQ] @ ''x''"
    "trim (''a;b;c'' @ [NL] @ ''1;2;3'') = ''a;b;c'' @ [NL] @ ''1;2;3''"
    by (simp_all add: trim_def is_ws_def)
  have c: "parseCSVLine ''a;b;c'' = [''a;b;c'']"
    by (simp add: parseCSVLine_def str_eval)
  have o: "\<not> header_overflow 65536 (''a,b'' @ [NL] @ [DQ] @ ''x'')"
    "header_overflow 2 (''a;b;c'' @ [NL] @ ''1;2;3'')"
    unfolding header_overflow_def t by (simp_all add: c)
  show ?thesis
    using n o parseCSV_errors [of 65536 "[]"] parseCSV_errors [of 65536 "'' '' @ [NL]"]
      parseCSV_errors [of 65536 "''a,b'' @ [NL]"]
      parseCSV_errors [of 65536 "''a,b'' @ [NL] @ [DQ] @ ''x''"]
      parseCSV_errors [of 2 "''a;b;c'' @ [NL] @ ''1;2;3''"]
    by (simp add: is_ws_def)
qed

subsection \<open>A header line of many pieces\<close>

lemma split_on_append_sep:
  "sep \<notin> set xs \<Longrightarrow> split_on sep (xs @ sep # ys) = xs # split_on sep ys"
  by (induction xs) auto

lemma split_on_replicate: "split_on sep (replicate n sep) = replicate (Suc n) []"
  by (induction n) simp_all

lemma parseCSVLine_loop_plain:
  "DQ \<notin> set l \<Longrightarrow> CHR '','' \<notin> set l \<Longrightarrow> parseCSVLine_loop l res cur q = res @ [cur @ l]"
  by (induction l arbitrary: cur) auto

text \<open>
  A header line of \<open>n\<close> semicolons, which are \<open>n + 1\<close> empty header names, above the
  data line \<^verbatim>\<open>1;2\<close>: both lines are not empty, and with an engine that takes fewer
  than \<open>n + 1\<close> arguments in a call the entry point fails.
\<close>

lemma header_of_semicolons:
  assumes "0 < n" "m \<le> n"
  shows "parseCSV m (replicate n CHR '';'' @ [NL] @ ''1;2'') = Inl (FailedToParseError RangeError)"
    and "length (nonempty_lines (replicate n CHR '';'' @ [NL] @ ''1;2'')) = 2"
proof -
  let ?h = "replicate n CHR '';''"
  let ?t = "?h @ [NL] @ ''1;2''"
  have h: "?h = CHR '';'' # replicate (n - 1) CHR '';''"
    using assms(1) by (cases n) simp_all
  have "hd ?t = CHR '';''"
    by (subst h) simp
  then have t: "trim ?t = ?t"
    by (intro trim_id) (simp_all add: is_ws_def)
  have "hd ?h = CHR '';''" "last ?h = CHR '';''" "?h \<noteq> []"
    using assms(1) by (simp_all add: h [symmetric])
  then have th: "trim ?h = ?h"
    by (intro trim_id) (simp_all add: is_ws_def)
  have l: "split_on NL ?t = [?h, ''1;2'']"
    using split_on_append_sep [of NL ?h "''1;2''"] by simp
  have d: "detectCompoundFormat ?h ''1;2''"
    by (subst h) (simp add: detectCompoundFormat_def)
  have "parseCSVLine_loop ?h [] [] False = [?h]"
    by (subst parseCSVLine_loop_plain) simp_all
  then have c: "parseCSVLine ?h = [?h]"
    by (simp add: parseCSVLine_def strip_quotes_id th)
  have s: "CHR '';'' \<in> set ?h"
    using assms(1) by simp
  have "compound_headers m [?h] [] = Inl RangeError"
    using assms(2) s by (simp add: split_on_replicate del: replicate_Suc)
  then have "parseCompoundCSV m ?t = Inl RangeError"
    unfolding parseCompoundCSV_def t l by (simp add: c)
  then show "parseCSV m ?t = Inl (FailedToParseError RangeError)"
    unfolding parseCSV_def t l using d by simp
  have "trim ''1;2'' \<noteq> []"
    by (simp add: trim_def is_ws_def)
  then show "length (nonempty_lines ?t) = 2"
    unfolding nonempty_lines_def l using th s by auto
qed

text \<open>
  C3 as stated fails. The empty text has fewer than two non-empty lines, and the error is
  the empty-input one, not the insufficient-rows one. And with an engine that takes
  65536 arguments in a call, the text made of a header line of 65536 semicolons and the
  data line \<^verbatim>\<open>1;2\<close> has two non-empty lines, and the entry point fails on it, with
  the error that wraps the engine's \<^verbatim>\<open>RangeError\<close>.
\<close>

theorem parseCSV_errors_not_as_stated:
  "parseCSV 65536 [] = Inl EmptyInputError \<and>
   length (nonempty_lines []) < 2 \<and>
   length (nonempty_lines (replicate 65536 CHR '';'' @ [NL] @ ''1;2'')) = 2 \<and>
   parseCSV 65536 (replicate 65536 CHR '';'' @ [NL] @ ''1;2'') =
     Inl (FailedToParseError RangeError)"
proof -
  have a: "parseCSV 65536 [] = Inl EmptyInputError"
    by (simp add: parseCSV_def)
  have b: "length (nonempty_lines []) < 2"
    by (simp add: nonempty_lines_def)
  have c: "length (nonempty_lines (replicate 65536 CHR '';'' @ [NL] @ ''1;2'')) = 2"
    by (rule header_of_semicolons(2) [of _ 65536]) simp_all
  have d: "parseCSV 65536 (replicate 65536 CHR '';'' @ [NL] @ ''1;2'') =
     Inl (FailedToParseError RangeError)"
    by (rule header_of_semicolons(1)) simp_all
  from a b c d show ?thesis
    by (intro conjI)
qed


section \<open>Properties of the row parsers\<close>

subsection \<open>The compound scenario\<close>

text \<open>
  C1. On the two lines \<^verbatim>\<open>TIME;V1;V2\<close> and \<^verbatim>\<open>2025-01-01 00:00:00,10;20\<close> the first
  cell of the second line holds no semicolon, so the detector answers standard: the
  entry point returns the single header \<^verbatim>\<open>TIME;V1;V2\<close>, one row that maps it to the
  number 2025, no multi-metric flag and the standard format, not the three headers and
  the compound row of the scenario.
\<close>

theorem parseCSV_compound_scenario:
  "parseCSV maxArguments (''TIME;V1;V2'' @ [NL] @ ''2025-01-01 00:00:00,10;20'') =
     Inr \<lparr>headers = [''TIME;V1;V2''], data = [[(''TIME;V1;V2'', JNum (Num 2025))]],
          isMultiMetric = False, originalFormat = Standard\<rparr>"
proof -
  let ?text = "''TIME;V1;V2'' @ [NL] @ ''2025-01-01 00:00:00,10;20''"
  have t: "trim ?text = ?text"
    by (simp add: trim_def is_ws_def)
  have l: "split_on NL ?text = [''TIME;V1;V2'', ''2025-01-01 00:00:00,10;20'']"
    by simp
  have d: "\<not> detectCompoundFormat ''TIME;V1;V2'' ''2025-01-01 00:00:00,10;20''"
    by (simp add: detectCompoundFormat_def)
  have c: "parseCSVLine ''2025-01-01 00:00:00,10;20'' = [''2025-01-01 00:00:00'', ''10;20'']"
    by (simp add: parseCSVLine_def str_eval)
  have f: "coerce ''2025-01-01 00:00:00'' = JNum (Num 2025)"
    by (simp add: num_eval str_eval)
  have "parseStandardCSV ?text =
     \<lparr>headers = [''TIME;V1;V2''], data = [[(''TIME;V1;V2'', JNum (Num 2025))]],
          isMultiMetric = False, originalFormat = Standard\<rparr>"
    unfolding parseStandardCSV_def t l by (simp add: c f str_eval)
  then show ?thesis
    unfolding parseCSV_def t l using d by simp
qed

text \<open>The compound parser, had it been selected, returns what the scenario expects, with
  any engine that takes three arguments in a call.\<close>

lemma parseCompoundCSV_compound_scenario:
  "3 \<le> maxArguments \<Longrightarrow>
   parseCompoundCSV maxArguments (''TIME;V1;V2'' @ [NL] @ ''2025-01-01 00:00:00,10;20'') =
     Inr \<lparr>headers = [''TIME'', ''V1'', ''V2''],
          data = [[(''TIME'', JStr ''2025-01-01 00:00:00''), (''V1'', JNum (Num 10)),
                   (''V2'', JNum (Num 20))]],
          isMultiMetric = True, originalFormat = Compound\<rparr>"
proof -
  assume m: "3 \<le> maxArguments"
  let ?text = "''TIME;V1;V2'' @ [NL] @ ''2025-01-01 00:00:00,10;20''"
  have t: "trim ?text = ?text"
    by (simp add: trim_def is_ws_def)
  have l: "split_on NL ?text = [''TIME;V1;V2'', ''2025-01-01 00:00:00,10;20'']"
    by simp
  have h0: "parseCSVLine ''TIME;V1;V2'' = [''TIME;V1;V2'']"
    by (simp add: parseCSVLine_def str_eval)
  have h1: "compound_headers maxArguments [''TIME;V1;V2''] [] = Inr [''TIME'', ''V1'', ''V2'']"
    using m by (simp add: str_eval)
  have h2: "cleanHeaders [''TIME'', ''V1'', ''V2''] = [''TIME'', ''V1'', ''V2'']"
    by (simp add: cleanHeaders_def strip_device_prefix_def str_eval)
  have tl: "trim ''2025-01-01 00:00:00,10;20'' = ''2025-01-01 00:00:00,10;20''"
    by (simp add: str_eval)
  have c: "parseCSVLine ''2025-01-01 00:00:00,10;20'' = [''2025-01-01 00:00:00'', ''10;20'']"
    by (simp add: parseCSVLine_def str_eval)
  have s: "trim ''10'' = ''10''" "trim ''20'' = ''20''"
    by (simp_all add: str_eval)
  have t0: "trim ''2025-01-01 00:00:00'' = ''2025-01-01 00:00:00''"
    by (simp add: str_eval)
  have f: "coerce ''10'' = JNum (Num 10)" "coerce ''20'' = JNum (Num 20)"
    by (simp_all add: num_eval str_eval)
  have r: "compound_line [''TIME'', ''V1'', ''V2''] [] ''2025-01-01 00:00:00,10;20'' =
      [[(''TIME'', JStr ''2025-01-01 00:00:00''), (''V1'', JNum (Num 10)), (''V2'', JNum (Num 20))]]"
    by (simp add: compound_line_def tl c s t0 f set_property_def)
  show ?thesis
    unfolding parseCompoundCSV_def t l by (simp add: h0 h1 h2 r del: compound_headers.simps)
qed

subsection \<open>Rows of the standard parser\<close>

lemma standard_row_keys:
  "fst ` set (standard_row hs vs row) =
     fst ` set row \<union> (set (take (length vs) hs) - {''__proto__''})"
  by (induction hs vs row rule: standard_row.induct)
     (auto simp add: set_property_def dom_update image_iff)

lemma parseStandardCSV_data:
  "data (parseStandardCSV text) =
     filter (\<lambda>row. row \<noteq> [])
       (map (\<lambda>line. standard_row (headers (parseStandardCSV text)) (parseCSVLine line) [])
          (drop 1 (split_on NL (trim text))))"
  by (simp add: parseStandardCSV_def Let_def)

lemma parseStandardCSV_headers_nonempty: "headers (parseStandardCSV text) \<noteq> []"
  by (simp add: parseStandardCSV_def Let_def split_on_nonempty)

text \<open>
  C2, as the code has it. When no header is the reserved name \<^verbatim>\<open>__proto__\<close>, the
  standard parser returns one row per line after the header line, and the row of a line
  has an entry for exactly the headers at the positions of the line's cells: a header
  beyond the last cell of the line has no entry in the row.
\<close>

theorem parseStandardCSV_row_keys:
  assumes "''__proto__'' \<notin> set (headers (parseStandardCSV text))"
  shows "length (data (parseStandardCSV text)) = length (split_on NL (trim text)) - 1 \<and>
   (\<forall>i < length (data (parseStandardCSV text)). \<forall>h.
      map_of (data (parseStandardCSV text) ! i) h \<noteq> None \<longleftrightarrow>
      h \<in> set (take (length (parseCSVLine (split_on NL (trim text) ! Suc i)))
                   (headers (parseStandardCSV text))))"
proof -
  let ?lines = "split_on NL (trim text)"
  let ?hs = "headers (parseStandardCSV text)"
  have keys: "fst ` set (standard_row ?hs (parseCSVLine line) []) =
      set (take (length (parseCSVLine line)) ?hs)" for line
  proof -
    have "''__proto__'' \<notin> set (take (length (parseCSVLine line)) ?hs)"
      using assms by (auto dest: in_set_takeD)
    then show ?thesis
      by (simp add: standard_row_keys)
  qed
  have "standard_row ?hs (parseCSVLine line) [] \<noteq> []" for line
  proof
    assume "standard_row ?hs (parseCSVLine line) [] = []"
    then have "set (take (length (parseCSVLine line)) ?hs) = {}"
      using keys [of line] by simp
    then show False
      using parseStandardCSV_headers_nonempty [of "text"] parseCSVLine_nonempty [of line] by simp
  qed
  then have d: "data (parseStandardCSV text) =
      map (\<lambda>line. standard_row ?hs (parseCSVLine line) []) (drop 1 ?lines)"
    by (subst parseStandardCSV_data) simp
  have len: "length (data (parseStandardCSV text)) = length ?lines - 1"
    by (subst d) simp
  have "map_of (data (parseStandardCSV text) ! i) h \<noteq> None \<longleftrightarrow>
        h \<in> set (take (length (parseCSVLine (?lines ! Suc i))) ?hs)"
    if "i < length (data (parseStandardCSV text))" for i h
  proof -
    have "i < length ?lines - 1" using that len by simp
    then have "data (parseStandardCSV text) ! i = standard_row ?hs (parseCSVLine (?lines ! Suc i)) []"
      by (subst d) simp
    then show ?thesis
      using keys [of "?lines ! Suc i"] by (simp add: map_of_eq_None_iff)
  qed
  with len show ?thesis by simp
qed

text \<open>C2 at the header \<^verbatim>\<open>a,b,c\<close> and the line \<^verbatim>\<open>1,2\<close>: entries for \<^verbatim>\<open>a\<close> and
  \<^verbatim>\<open>b\<close>, none for \<^verbatim>\<open>c\<close>.\<close>

theorem parseStandardCSV_row_keys_witness:
  "length (data (parseStandardCSV (''a,b,c'' @ [NL] @ ''1,2''))) = 1 \<and>
   map_of (data (parseStandardCSV (''a,b,c'' @ [NL] @ ''1,2'')) ! 0) ''a'' \<noteq> None \<and>
   map_of (data (parseStandardCSV (''a,b,c'' @ [NL] @ ''1,2'')) ! 0) ''b'' \<noteq> None \<and>
   map_of (data (parseStandardCSV (''a,b,c'' @ [NL] @ ''1,2'')) ! 0) ''c'' = None"
proof -
  let ?text = "''a,b,c'' @ [NL] @ ''1,2''"
  have t: "trim ?text = ?text"
    by (simp add: trim_def is_ws_def)
  have l: "split_on NL ?text = [''a,b,c'', ''1,2'']"
    by simp
  have c: "length (parseCSVLine ''1,2'') = 2"
    by (simp add: parseCSVLine_def)
  have h: "headers (parseStandardCSV ?text) = [''a'', ''b'', ''c'']"
    unfolding parseStandardCSV_def t l by (simp add: str_eval)
  have p: "''__proto__'' \<notin> set (headers (parseStandardCSV ?text))"
    unfolding h by simp
  have n: "length (data (parseStandardCSV ?text)) = 1"
    using parseStandardCSV_row_keys [OF p] unfolding t l by simp
  then have k: "map_of (data (parseStandardCSV ?text) ! 0) h \<noteq> None \<longleftrightarrow> h \<in> set [''a'', ''b'']"
    for h
    using parseStandardCSV_row_keys [OF p] unfolding t l h by (simp add: c)
  show ?thesis
    using n k [of "''a''"] k [of "''b''"] k [of "''c''"] by simp
qed

text \<open>
  C2 as stated fails: for the header \<^verbatim>\<open>a,b\<close> and the data line \<^verbatim>\<open>1\<close> the row has
  the one entry for \<^verbatim>\<open>a\<close>; \<^verbatim>\<open>b\<close> is not mapped to the empty string, it is absent.
\<close>

theorem parseStandardCSV_short_row:
  "headers (parseStandardCSV (''a,b'' @ [NL] @ ''1'')) = [''a'', ''b''] \<and>
   data (parseStandardCSV (''a,b'' @ [NL] @ ''1'')) = [[(''a'', JNum (Num 1))]] \<and>
   map_of (hd (data (parseStandardCSV (''a,b'' @ [NL] @ ''1'')))) ''b'' \<noteq> Some (JStr [])"
proof -
  let ?text = "''a,b'' @ [NL] @ ''1''"
  have t: "trim ?text = ?text"
    by (simp add: trim_def is_ws_def)
  have l: "split_on NL ?text = [''a,b'', ''1'']"
    by simp
  have c: "parseCSVLine ''1'' = [''1'']"
    by (simp add: parseCSVLine_def str_eval)
  have f: "coerce ''1'' = JNum (Num 1)"
    by (simp add: num_eval str_eval)
  have "parseStandardCSV ?text =
     \<lparr>headers = [''a'', ''b''], data = [[(''a'', JNum (Num 1))]],
          isMultiMetric = False, originalFormat = Standard\<rparr>"
    unfolding parseStandardCSV_def t l by (simp add: c f str_eval)
  then show ?thesis by simp
qed

subsection \<open>Typed values of the cells\<close>

text \<open>The literal \<^verbatim>\<open>Infinity\<close> is a number to the parser: the test is for NaN, not for
  a finite value.\<close>

lemma coerce_Infinity: "coerce ''Infinity'' = JNum PosInfinity"
  by (simp add: num_eval str_eval)

text \<open>A literal beyond the range of binary64 reads as an infinity.\<close>

lemma parseFloat_1e400: "parseFloat ''1e400'' = PosInfinity"
  by (simp add: parseFloat_def exponentPart_def pow10_def str_eval round64_overflow)

text \<open>
  C6. In the compound file of the lines \<^verbatim>\<open>TIME;V\<close> and \<^verbatim>\<open>2025-01-01;10\<close> the value
  of the first column, whose text holds the separator \<^verbatim>\<open>-\<close>, is the number 2025: the
  test for a date or timestamp is made for a first cell without semicolon only, and the
  pieces of a first cell with semicolons are coerced like all others. In the standard
  file of the lines \<^verbatim>\<open>Date,Temperature\<close> and \<^verbatim>\<open>2025-01-01,23.5\<close> the date is the
  number 2025 as well: \<^verbatim>\<open>parseFloat\<close> reads the digits a text starts with and
  ignores what follows, so a text that is no number as a whole is coerced. The engine
  takes 65536 arguments in a call.
\<close>

theorem parseCSV_coerces_dates:
  "parseCSV 65536 (''TIME;V'' @ [NL] @ ''2025-01-01;10'') =
     Inr \<lparr>headers = [''TIME'', ''V''],
          data = [[(''TIME'', JNum (Num 2025)), (''V'', JNum (Num 10))]],
          isMultiMetric = True, originalFormat = Compound\<rparr> \<and>
   parseCSV 65536 (''Date,Temperature'' @ [NL] @ ''2025-01-01,23.5'') =
     Inr \<lparr>headers = [''Date'', ''Temperature''],
          data = [[(''Date'', JNum (Num 2025)), (''Temperature'', JNum (Num (47 / 2)))]],
          isMultiMetric = False, originalFormat = Standard\<rparr>"
proof -
  let ?c = "''TIME;V'' @ [NL] @ ''2025-01-01;10''"
  let ?s = "''Date,Temperature'' @ [NL] @ ''2025-01-01,23.5''"
  have t: "trim ?c = ?c" "trim ?s = ?s"
    by (simp_all add: trim_def is_ws_def)
  have l: "split_on NL ?c = [''TIME;V'', ''2025-01-01;10'']"
    "split_on NL ?s = [''Date,Temperature'', ''2025-01-01,23.5'']"
    by simp_all
  have d: "detectCompoundFormat ''TIME;V'' ''2025-01-01;10''"
    "\<not> detectCompoundFormat ''Date,Temperature'' ''2025-01-01,23.5''"
    by (simp_all add: detectCompoundFormat_def)
  have c: "parseCSVLine ''TIME;V'' = [''TIME;V'']"
    "parseCSVLine ''2025-01-01;10'' = [''2025-01-01;10'']"
    "parseCSVLine ''2025-01-01,23.5'' = [''2025-01-01'', ''23.5'']"
    by (simp_all add: parseCSVLine_def str_eval)
  have h: "round64 (47 / 2) = Num (47 / 2)"
    using round64_dyadic [of 47 "- 1"] by simp
  have f: "coerce ''2025-01-01'' = JNum (Num 2025)" "coerce ''10'' = JNum (Num 10)"
    "coerce ''23.5'' = JNum (Num (47 / 2))"
    by (simp_all add: num_eval str_eval h)
  have tr: "trim ''2025-01-01;10'' = ''2025-01-01;10''" "trim ''2025-01-01'' = ''2025-01-01''"
    "trim ''10'' = ''10''" "trim ''TIME'' = ''TIME''" "trim ''V'' = ''V''"
    by (simp_all add: str_eval)
  have h2: "cleanHeaders [''TIME'', ''V''] = [''TIME'', ''V'']"
    by (simp add: cleanHeaders_def strip_device_prefix_def str_eval)
  have r: "compound_line [''TIME'', ''V''] [] ''2025-01-01;10'' =
      [[(''TIME'', JNum (Num 2025)), (''V'', JNum (Num 10))]]"
    by (simp add: compound_line_def tr c f set_property_def)
  have 1: "parseCSV 65536 ?c =
     Inr \<lparr>headers = [''TIME'', ''V''],
          data = [[(''TIME'', JNum (Num 2025)), (''V'', JNum (Num 10))]],
          isMultiMetric = True, originalFormat = Compound\<rparr>"
    unfolding parseCSV_def parseCompoundCSV_def t l using d by (simp add: c tr h2 r)
  have "parseStandardCSV ?s =
     \<lparr>headers = [''Date'', ''Temperature''],
          data = [[(''Date'', JNum (Num 2025)), (''Temperature'', JNum (Num (47 / 2)))]],
          isMultiMetric = False, originalFormat = Standard\<rparr>"
    unfolding parseStandardCSV_def t l by (simp add: c f str_eval)
  then have 2: "parseCSV 65536 ?s =
     Inr \<lparr>headers = [''Date'', ''Temperature''],
          data = [[(''Date'', JNum (Num 2025)), (''Temperature'', JNum (Num (47 / 2)))]],
          isMultiMetric = False, originalFormat = Standard\<rparr>"
    unfolding parseCSV_def t l using d by simp
  from 1 2 show ?thesis by simp
qed

section \<open>Properties of the header normalizer\<close>

lemma strip_device_prefix_IOITSecure:
  assumes "ds \<noteq> []" "\<forall>c\<in>set ds. is_digit c" "\<forall>c\<in>set ws1. is_ws c" "\<forall>c\<in>set ws2. is_ws c"
    and "name = [] \<or> \<not> is_ws (hd name)"
  shows "strip_device_prefix (''IOITSecure'' @ ds @ ws1 @ ''>'' @ ws2 @ name) = name"
proof -
  let ?r = "ws1 @ ''>'' @ ws2 @ name"
  have nd: "takeWhile is_digit ?r = []"
  proof (cases ws1)
    case Nil
    then show ?thesis by (simp add: is_digit_def)
  next
    case (Cons a list)
    then show ?thesis using assms(3) by (simp add: ws_not_digit)
  qed
  have t: "takeWhile is_digit (ds @ ?r) = ds"
    using assms(2) nd by (simp add: takeWhile_append2 del: append_assoc)
  have "dropWhile is_digit ?r = ?r"
    using nd by (metis takeWhile_dropWhile_id append_Nil)
  then have d: "dropWhile is_digit (ds @ ?r) = ?r"
    using assms(2) by (simp add: dropWhile_append2 del: append_assoc)
  have w1: "dropWhile is_ws ?r = ''>'' @ ws2 @ name"
    using assms(3) by (simp add: dropWhile_append2 is_ws_def)
  have w2: "dropWhile is_ws (ws2 @ name) = name"
    using assms(4,5) by (cases name) (simp_all add: dropWhile_append2)
  show ?thesis
    using assms(1) t d w1 w2 by (simp add: strip_device_prefix_def Let_def)
qed

text \<open>
  C9, as the code has it. The prefix that header cleaning strips is the literal tag
  \<^verbatim>\<open>IOITSecure\<close> followed by one or more decimal digits, optional white space, the
  separator \<^verbatim>\<open>>\<close> and optional white space: a header made of such a prefix and a name
  is cleaned to the name.
\<close>

theorem cleanHeaders_strips_IOITSecure:
  assumes "ds \<noteq> []" "\<forall>c\<in>set ds. is_digit c" "\<forall>c\<in>set ws1. is_ws c" "\<forall>c\<in>set ws2. is_ws c"
    and "name \<noteq> []" "trim name = name"
  shows "cleanHeaders [''IOITSecure'' @ ds @ ws1 @ ''>'' @ ws2 @ name] = [name]"
proof -
  let ?h = "''IOITSecure'' @ ds @ ws1 @ ''>'' @ ws2 @ name"
  have n: "\<not> is_ws (hd name)" "\<not> is_ws (last name)"
    using trim_ends [of name] assms(5,6) by simp_all
  have "last ?h = last name"
    using assms(5) by simp
  moreover have "hd ?h = CHR ''I''" by simp
  ultimately have "trim ?h = ?h"
    using n by (intro trim_id) (simp_all add: is_ws_def)
  moreover have "strip_device_prefix ?h = name"
    using assms n by (intro strip_device_prefix_IOITSecure) simp_all
  ultimately show ?thesis
    by (simp add: cleanHeaders_def Let_def)
qed

text \<open>C9 at the header \<^verbatim>\<open>IOITSecure123 > Voltage\<close>.\<close>

theorem cleanHeaders_strips_IOITSecure_witness:
  "cleanHeaders [''IOITSecure123 > Voltage''] = [''Voltage'']"
proof -
  have h: "''123'' \<noteq> []" "\<forall>c\<in>set ''123''. is_digit c" "\<forall>c\<in>set '' ''. is_ws c"
    "''Voltage'' \<noteq> []" "trim ''Voltage'' = ''Voltage''"
    by (simp_all add: str_eval)
  show ?thesis
    using cleanHeaders_strips_IOITSecure [OF h(1) h(2) h(3) h(3) h(4) h(5)] by simp
qed

text \<open>A header that does not start with the tag is only trimmed.\<close>

lemma cleanHeaders_other_prefix:
  "take 10 (trim h) \<noteq> ''IOITSecure'' \<Longrightarrow> cleanHeaders [h] = [trim h]"
  by (simp add: cleanHeaders_def strip_device_prefix_def Let_def)

text \<open>
  C9 as stated fails: \<^verbatim>\<open>Device123 > Voltage\<close> has an alphanumeric device tag and
  the separator, and header cleaning returns it unchanged.
\<close>

theorem cleanHeaders_keeps_Device123:
  "cleanHeaders [''Device123 > Voltage''] = [''Device123 > Voltage'']"
  by (simp add: cleanHeaders_def strip_device_prefix_def str_eval)

lemma cleanHeaders_loop_acc:
  "cleanHeaders_loop hs cleaned seen = cleaned @ cleanHeaders_loop hs [] seen"
proof (induction hs arbitrary: cleaned seen)
  case Nil
  show ?case by simp
next
  case (Cons h hs)
  show ?case
    by (cases "seen (strip_device_prefix (trim h))")
       (simp_all add: Let_def Cons [of "cleaned @ _"] Cons [of "[_]"])
qed

lemma cleanHeaders_loop_nth:
  assumes "\<And>c. seen c = (if cnt c = 0 then None else Some (cnt c))"
  shows "length (cleanHeaders_loop hs [] seen) = length hs \<and>
         (\<forall>i < length hs. cleanHeaders_loop hs [] seen ! i =
            occurrence_name (cleanName (hs ! i))
              (cnt (cleanName (hs ! i)) + count_list (map cleanName (take (Suc i) hs)) (cleanName (hs ! i))))"
  using assms
proof (induction hs arbitrary: seen cnt)
  case Nil
  show ?case by simp
next
  case (Cons h hs)
  let ?c = "cleanName h"
  let ?seen = "seen(?c \<mapsto> cnt ?c + 1)"
  let ?cnt = "cnt(?c := cnt ?c + 1)"
  have inv: "?seen c = (if ?cnt c = 0 then None else Some (?cnt c))" for c
    using Cons.prems [of c] by simp
  note IH = Cons.IH [of ?seen ?cnt, OF inv]
  have step: "cleanHeaders_loop (h # hs) [] seen =
      occurrence_name ?c (cnt ?c + 1) # cleanHeaders_loop hs [] ?seen"
    using Cons.prems [of ?c] cleanHeaders_loop_acc [of hs "[_]"]
    by (simp add: Let_def cleanName_def occurrence_name_def)
  show ?case
  proof (intro conjI allI impI)
    show "length (cleanHeaders_loop (h # hs) [] seen) = length (h # hs)"
      unfolding step using IH [THEN conjunct1] by (simp del: fun_upd_apply)
    fix i assume i: "i < length (h # hs)"
    show "cleanHeaders_loop (h # hs) [] seen ! i =
            occurrence_name (cleanName ((h # hs) ! i))
              (cnt (cleanName ((h # hs) ! i)) +
               count_list (map cleanName (take (Suc i) (h # hs))) (cleanName ((h # hs) ! i)))"
    proof (cases i)
      case 0
      then show ?thesis unfolding step by simp
    next
      case (Suc j)
      then have "j < length hs" using i by simp
      with IH have "cleanHeaders_loop hs [] ?seen ! j =
            occurrence_name (cleanName (hs ! j))
              (?cnt (cleanName (hs ! j)) + count_list (map cleanName (take (Suc j) hs)) (cleanName (hs ! j)))"
        by blast
      with Suc show ?thesis unfolding step by (simp del: fun_upd_apply) simp
    qed
  qed
qed

text \<open>The list returned has the length and the order of the raw list, and the header
  at a position is named after the number of occurrences of its cleaned name up to that
  position: unchanged for the first, suffixed with a space and k for the k-th.\<close>

lemma cleanHeaders_names:
  "length (cleanHeaders hs) = length hs \<and>
   (\<forall>i < length hs. cleanHeaders hs ! i =
      occurrence_name (cleanName (hs ! i))
        (count_list (map cleanName (take (Suc i) hs)) (cleanName (hs ! i))))"
  using cleanHeaders_loop_nth [of Map.empty "\<lambda>_. 0" hs]
  by (simp add: cleanHeaders_def)

text \<open>
  C5. The raw headers \<^verbatim>\<open>V\<close>, \<^verbatim>\<open>V\<close>, \<^verbatim>\<open>V 2\<close> are normalized to \<^verbatim>\<open>V\<close>, \<^verbatim>\<open>V 2\<close>,
  \<^verbatim>\<open>V 2\<close>: the name made for the second \<^verbatim>\<open>V\<close> is not recorded as seen, so a later
  header of that very name is taken for a first occurrence, and the returned list holds
  two equal names.
\<close>

theorem cleanHeaders_not_distinct:
  "cleanHeaders [''V'', ''V'', ''V 2''] = [''V'', ''V 2'', ''V 2''] \<and>
   \<not> distinct (cleanHeaders [''V'', ''V'', ''V 2''])"
proof -
  have "cleanHeaders [''V'', ''V'', ''V 2''] = [''V'', ''V 2'', ''V 2'']"
    by (simp add: cleanHeaders_def strip_device_prefix_def str_eval show_nat.simps)
  then show ?thesis by simp
qed

text \<open>The scenario of three equal headers.\<close>

lemma cleanHeaders_V_V_V: "cleanHeaders [''V'', ''V'', ''V''] = [''V'', ''V 2'', ''V 3'']"
  by (simp add: cleanHeaders_def strip_device_prefix_def str_eval show_nat.simps)


section \<open>Properties of the time-series aggregator\<close>

lemma observations_simps [simp]:
  "observations y [] = []"
  "observations y (r # rs) = (case map_of r y of Some (JNum v) \<Rightarrow> [v] | _ \<Rightarrow> []) @ observations y rs"
  "observations y (rs @ rs') = observations y rs @ observations y rs'"
  by (simp_all add: observations_def)

lemma selected_observations_simps [simp]:
  "selected_observations ys y [] = []"
  "selected_observations ys y (r # rs) =
     (case map_of r y of Some (JNum v) \<Rightarrow> replicate (count_list ys y) v | _ \<Rightarrow> []) @
     selected_observations ys y rs"
  by (simp_all add: selected_observations_def)

text \<open>A column that is selected once gives each observation once.\<close>

lemma count_list_distinct: "distinct ys \<Longrightarrow> y \<in> set ys \<Longrightarrow> count_list ys y = 1"
  by (induction ys) auto

lemma selected_observations_distinct:
  assumes "distinct ys" "y \<in> set ys"
  shows "selected_observations ys y rows = observations y rows"
  by (induction rows)
     (simp_all add: count_list_distinct [OF assms] split: option.splits jsval.splits)

lemma push_value_obs:
  "map_of (push_value vals k v) y =
     (if y = k then Some ((case map_of vals k of None \<Rightarrow> [] | Some vs \<Rightarrow> vs) @ [v]) else map_of vals y)"
  by (auto simp add: push_value_def update_conv' map_add_def split: option.splits)

lemma accumulate_fold_obs:
  "group_obs (foldl (\<lambda>group yAxisKey.
                  case map_of row yAxisKey of
                    Some (JNum yValue) \<Rightarrow>
                      group\<lparr>gvalues := push_value (gvalues group) yAxisKey yValue\<rparr>
                  | _ \<Rightarrow> group) g ys) y =
         group_obs g y @ selected_observations ys y [row]"
proof (induction ys arbitrary: g)
  case Nil
  show ?case by (simp split: option.splits jsval.splits)
next
  case (Cons a ys)
  let ?g = "case map_of row a of
              Some (JNum yValue) \<Rightarrow> g\<lparr>gvalues := push_value (gvalues g) a yValue\<rparr>
            | _ \<Rightarrow> g"
  have s: "group_obs ?g y =
      group_obs g y @ (if a = y then (case map_of row y of Some (JNum v) \<Rightarrow> [v] | _ \<Rightarrow> []) else [])"
    by (auto simp add: group_obs_def push_value_obs split: option.splits jsval.splits)
  show ?case
    using Cons [of ?g] s by (auto split: option.splits jsval.splits)
qed

lemma accumulate_fold_count:
  "gcount (foldl (\<lambda>group yAxisKey.
                  case map_of row yAxisKey of
                    Some (JNum yValue) \<Rightarrow>
                      group\<lparr>gvalues := push_value (gvalues group) yAxisKey yValue\<rparr>
                  | _ \<Rightarrow> group) g ys) = gcount g"
  by (induction ys arbitrary: g) (auto split: option.splits jsval.splits)

lemma accumulate_row_obs:
  "group_obs (accumulate_row ys row g) y = group_obs g y @ selected_observations ys y [row]"
  using accumulate_fold_obs [of row g ys y]
  by (simp add: accumulate_row_def Let_def group_obs_def)

lemma accumulate_row_count: "gcount (accumulate_row ys row g) = gcount g + 1"
  by (simp add: accumulate_row_def Let_def accumulate_fold_count)

lemma group_row_keys:
  "map fst (group_row nd x ys tg G r) =
     (case bucket_key nd x tg r of
        None \<Rightarrow> map fst G
      | Some k \<Rightarrow> if k \<in> set (map fst G) then map fst G else map fst G @ [k])"
proof (cases "parseDate nd (map_of r x)")
  case None
  then show ?thesis by (simp add: group_row_def bucket_key_def)
next
  case (Some date)
  obtain k lab where kl: "groupKeyLabel tg date = (k, lab)" by (cases "groupKeyLabel tg date")
  show ?thesis
  proof (cases "map_of G k")
    case None
    then have "k \<notin> set (map fst G)" by (simp add: map_of_eq_None_iff)
    with None Some kl show ?thesis by (simp add: group_row_def bucket_key_def)
  next
    case g: (Some g)
    then have "k \<in> set (map fst G)" by (force dest!: map_of_SomeD)
    with g Some kl show ?thesis
      by (auto simp add: group_row_def bucket_key_def update_keys)
  qed
qed

lemma group_row_map_of:
  "map_of (group_row nd x ys tg G r) k =
     (case parseDate nd (map_of r x) of
        None \<Rightarrow> map_of G k
      | Some date \<Rightarrow>
          if k = fst (groupKeyLabel tg date)
          then Some (accumulate_row ys r
                 (case map_of G k of
                    None \<Rightarrow> \<lparr>gvalues = [], gcount = 0, glabel = snd (groupKeyLabel tg date)\<rparr>
                  | Some g \<Rightarrow> g))
          else map_of G k)"
proof (cases "parseDate nd (map_of r x)")
  case None
  then show ?thesis by (simp add: group_row_def)
next
  case (Some date)
  obtain k0 lab where kl: "groupKeyLabel tg date = (k0, lab)" by (cases "groupKeyLabel tg date")
  show ?thesis
    using Some kl
    by (cases "map_of G k0") (auto simp add: group_row_def update_conv' map_add_def split: option.splits)
qed

lemma group_row_count:
  "count_in (group_row nd x ys tg G r) k =
     count_in G k + (if bucket_key nd x tg r = Some k then 1 else 0)"
  by (cases "parseDate nd (map_of r x)")
     (auto simp add: count_in_def group_row_map_of bucket_key_def accumulate_row_count
           split: option.splits)

lemma group_obs_new: "group_obs \<lparr>gvalues = [], gcount = c, glabel = l\<rparr> y = []"
  by (simp add: group_obs_def)

lemma group_row_obs:
  "obs_in (group_row nd x ys tg G r) k y =
     obs_in G k y @ (if bucket_key nd x tg r = Some k then selected_observations ys y [r] else [])"
  by (cases "parseDate nd (map_of r x)")
     (auto simp add: obs_in_def group_row_map_of bucket_key_def accumulate_row_obs
           group_obs_new split: option.splits)

lemma count_in_Nil: "count_in [] k = 0"
  by (simp add: count_in_def)

lemma obs_in_Nil: "obs_in [] k y = []"
  by (simp add: obs_in_def)

lemma grouped_count:
  "count_in (foldl (group_row nd x ys tg) G rows) k =
     count_in G k + length (bucket_rows nd x tg k rows)"
  by (induction rows arbitrary: G) (simp_all add: bucket_rows_def group_row_count)

lemma grouped_obs:
  "obs_in (foldl (group_row nd x ys tg) G rows) k y =
     obs_in G k y @ selected_observations ys y (bucket_rows nd x tg k rows)"
  by (induction rows arbitrary: G) (simp_all add: bucket_rows_def group_row_obs)

lemma grouped_distinct:
  "distinct (map fst G) \<Longrightarrow> distinct (map fst (foldl (group_row nd x ys tg) G rows))"
  by (induction rows arbitrary: G) (simp_all add: group_row_keys split: option.splits)

lemma grouped_keys:
  "set (map fst (foldl (group_row nd x ys tg) G rows)) =
     set (map fst G) \<union> {k. \<exists>r\<in>set rows. bucket_key nd x tg r = Some k}"
proof (induction rows arbitrary: G)
  case Nil
  show ?case by simp
next
  case (Cons r rows)
  have "set (map fst (group_row nd x ys tg G r)) =
        set (map fst G) \<union> {k. bucket_key nd x tg r = Some k}"
    by (auto simp add: group_row_keys split: option.splits)
  then show ?case
    unfolding foldl_Cons Cons by auto
qed


lemma foldl_set_property_map_of:
  "map_of (foldl (\<lambda>row y. set_property y (f y) row) r0 ys) k =
     (if k \<in> set ys \<and> k \<noteq> ''__proto__'' then Some (f k) else map_of r0 k)"
  by (induction ys arbitrary: r0) (auto simp add: set_property_def update_conv')

lemma aggregate_group_value:
  assumes "y \<in> set ys" "y \<noteq> ''__proto__''"
  shows "map_of (aggregate_group x ys m (k, g)) y =
     Some (JNum (toFixed2 (bucket_value m (group_obs g y) (gcount g))))"
  using assms unfolding group_obs_def bucket_value_def
  by (simp add: aggregate_group_def Let_def foldl_set_property_map_of)

lemma aggregate_group_key:
  assumes "''_originalKey'' \<notin> set ys"
  shows "originalKey (aggregate_group x ys m (k, g)) = k"
  using assms
  by (simp add: aggregate_group_def Let_def foldl_set_property_map_of originalKey_def update_conv')

lemma mset_insert_by: "mset (insert_by cmp x ys) = add_mset x (mset ys)"
  by (induction ys) simp_all

lemma mset_sort_by: "mset (sort_by cmp xs) = mset xs"
  by (induction xs) (simp_all add: sort_by_def mset_insert_by)

lemma sum_list_single:
  fixes c :: "'a::comm_monoid_add"
  assumes "distinct ks"
  shows "(\<Sum>k\<leftarrow>ks. if k0 = k then c else 0) = (if k0 \<in> set ks then c else 0)"
  using assms by (induction ks) auto

lemma bucket_counts:
  assumes "distinct ks" "{k. \<exists>r\<in>set rows. bucket_key nd x tg r = Some k} \<subseteq> set ks"
  shows "(\<Sum>k\<leftarrow>ks. length (bucket_rows nd x tg k rows)) = length (dated_rows nd x rows)"
  using assms(2)
proof (induction rows)
  case Nil
  show ?case by (simp add: bucket_rows_def dated_rows_def)
next
  case (Cons r rows)
  have split: "length (bucket_rows nd x tg k (r # rows)) =
      (if bucket_key nd x tg r = Some k then 1 else 0) + length (bucket_rows nd x tg k rows)" for k
    by (simp add: bucket_rows_def)
  have one: "(\<Sum>k\<leftarrow>ks. if bucket_key nd x tg r = Some k then 1 else 0) =
      (if parseDate nd (map_of r x) \<noteq> None then 1 else (0::nat))"
  proof (cases "bucket_key nd x tg r")
    case None
    then show ?thesis by (auto simp add: bucket_key_def split: option.splits)
  next
    case (Some k0)
    then have "k0 \<in> set ks" using Cons.prems by auto
    moreover have "parseDate nd (map_of r x) \<noteq> None"
      using Some by (auto simp add: bucket_key_def split: option.splits)
    ultimately show ?thesis
      using Some sum_list_single [OF assms(1), of k0 "1::nat"] by simp
  qed
  have "{k. \<exists>r\<in>set rows. bucket_key nd x tg r = Some k} \<subseteq> set ks"
    using Cons.prems by auto
  then have IH: "(\<Sum>k\<leftarrow>ks. length (bucket_rows nd x tg k rows)) = length (dated_rows nd x rows)"
    by (rule Cons.IH)
  show ?case
    unfolding split sum_list_addf one IH
    by (simp add: dated_rows_def)
qed

lemma grouped_dated:
  "foldl (group_row nd x ys tg) G (dated_rows nd x rows) = foldl (group_row nd x ys tg) G rows"
  by (induction rows arbitrary: G) (auto simp add: dated_rows_def group_row_def)


text \<open>
  The output of the grouping, whatever the method and the comparator of the sort: one
  row per bucket key of the rows, and in it, for a selected column, the rounded value
  of the bucket, computed from the observations that the rows of the bucket give for
  the column and from the number of these rows.
\<close>

lemma grouped_output:
  assumes ys: "''_originalKey'' \<notin> set ys" "''__proto__'' \<notin> set ys"
    and out: "out = sort_by cmp (map (aggregate_group x ys m) (foldl (group_row nd x ys tg) [] rows))"
  shows "distinct (map originalKey out)"
    and "set (map originalKey out) = {k. \<exists>r\<in>set rows. bucket_key nd x tg r = Some k}"
    and "\<And>r y. r \<in> set out \<Longrightarrow> y \<in> set ys \<Longrightarrow>
           map_of r y = Some (JNum (toFixed2 (bucket_value m
             (selected_observations ys y (bucket_rows nd x tg (originalKey r) rows))
             (length (bucket_rows nd x tg (originalKey r) rows)))))"
proof -
  define G where "G = foldl (group_row nd x ys tg) [] rows"
  have dG: "distinct (map fst G)"
    unfolding G_def by (rule grouped_distinct) simp
  have kG: "set (map fst G) = {k. \<exists>r\<in>set rows. bucket_key nd x tg r = Some k}"
    unfolding G_def using grouped_keys [of nd x ys tg "[]" rows] by simp
  have keys: "map originalKey (map (aggregate_group x ys m) G) = map fst G"
    using ys(1) by (induction G) (auto simp add: aggregate_group_key)
  have m: "mset out = mset (map (aggregate_group x ys m) G)"
    unfolding out G_def by (rule mset_sort_by)
  then have mk: "mset (map originalKey out) = mset (map fst G)"
    by (metis keys mset_map)
  show "distinct (map originalKey out)"
    using mk dG by (metis mset_eq_imp_distinct_iff)
  show "set (map originalKey out) = {k. \<exists>r\<in>set rows. bucket_key nd x tg r = Some k}"
    using mk kG by (metis mset_eq_setD)
  show "map_of r y = Some (JNum (toFixed2 (bucket_value m
             (selected_observations ys y (bucket_rows nd x tg (originalKey r) rows))
             (length (bucket_rows nd x tg (originalKey r) rows)))))"
    if r: "r \<in> set out" and y: "y \<in> set ys" for r y
  proof -
    have "r \<in> set (map (aggregate_group x ys m) G)"
      using r m by (metis mset_eq_setD)
    then obtain k g where kg: "(k, g) \<in> set G" and r': "r = aggregate_group x ys m (k, g)"
      by auto
    have k: "originalKey r = k"
      unfolding r' using ys(1) by (rule aggregate_group_key)
    have g: "map_of G k = Some g"
      using dG kg by simp
    have "count_in G k = length (bucket_rows nd x tg k rows)"
      unfolding G_def by (simp add: grouped_count count_in_Nil)
    then have c: "gcount g = length (bucket_rows nd x tg k rows)"
      using g by (simp add: count_in_def)
    have "obs_in G k y = selected_observations ys y (bucket_rows nd x tg k rows)"
      unfolding G_def by (simp add: grouped_obs obs_in_Nil)
    then have o: "group_obs g y = selected_observations ys y (bucket_rows nd x tg k rows)"
      using g by (simp add: obs_in_def)
    have y': "y \<noteq> ''__proto__''"
      using y ys(2) by auto
    show ?thesis
      unfolding k unfolding r' aggregate_group_value [OF y y'] o c ..
  qed
qed

text \<open>On a whole number that is a binary64 value the rule for the other values gives
  the number itself as well: its two decimals are zeros.\<close>

lemma toFixed2_whole:
  assumes "of_int \<lfloor>x\<rfloor> = x" "round64 x = Num x"
  shows "round64 (sgn x * of_int \<lfloor>\<bar>x\<bar> * 100 + 1 / 2\<rfloor> / 100) = Num x"
proof -
  have a: "\<bar>x\<bar> = of_int \<bar>\<lfloor>x\<rfloor>\<bar>"
    using assms(1) by (metis of_int_abs)
  have "\<lfloor>of_int \<bar>\<lfloor>x\<rfloor>\<bar> * 100 + 1 / 2 :: rat\<rfloor> = \<bar>\<lfloor>x\<rfloor>\<bar> * 100"
    by (rule floor_unique) simp_all
  then have "of_int \<lfloor>\<bar>x\<bar> * 100 + 1 / 2\<rfloor> / 100 = \<bar>x\<bar>"
    by (subst a, simp, subst a, simp)
  then have "sgn x * of_int \<lfloor>\<bar>x\<bar> * 100 + 1 / 2\<rfloor> / 100 = x"
    by (simp add: sgn_mult_abs)
  then show ?thesis
    using assms(2) by simp
qed

lemma toFixed2_of_nat: "toFixed2 (Num (of_nat n)) = Num (of_nat n)"
  by simp

lemma processedData_grouped:
  assumes "tg \<noteq> none" "''_originalKey'' \<notin> set ys"
    and "ys = (if vm = multi then sel else [yAxis])"
  shows "\<exists>cmp. \<forall>rows. processedData nd lc rows x yAxis sel vm tg m True =
           Inr (sort_by cmp (map (aggregate_group x ys m) (foldl (group_row nd x ys tg) [] rows)))"
  using assms by (cases tg) (auto simp add: processedData_def Let_def)

lemma bucket_value_MSum: "bucket_value MSum obs n = js_sum obs"
  by (simp add: bucket_value_def js_sum_def)

text \<open>
  C7, as the code has it. Grouping by days, weeks or months on a time column that is a
  date column, with the sum as method and selected value columns named neither
  \<^verbatim>\<open>_originalKey\<close> nor \<^verbatim>\<open>__proto__\<close>: there is one output row per bucket key of the
  rows; the value of a selected column in an output row is the sum, taken from 0 in the
  order of the rows and rounded to binary64 at every step, of the numeric observations
  that the rows of the bucket give for the column, each observation once for every time
  the column is selected, and that sum rounded to two decimals; and the rows whose time
  value does not parse change nothing: without them the output is the same.
\<close>

theorem processedData_sum:
  assumes "timeGrouping \<noteq> none" and "isDateAxis"
    and "ys = (if viewMode = multi then selectedYAxes else [yAxis])"
    and "''_originalKey'' \<notin> set ys" and "''__proto__'' \<notin> set ys"
  shows "\<exists>out.
     processedData newDate localeCompare rows xAxis yAxis selectedYAxes viewMode timeGrouping
       MSum isDateAxis = Inr out \<and>
     distinct (map originalKey out) \<and>
     set (map originalKey out) = {k. \<exists>r\<in>set rows. bucket_key newDate xAxis timeGrouping r = Some k} \<and>
     (\<forall>r\<in>set out. \<forall>y\<in>set ys.
        map_of r y = Some (JNum (toFixed2 (js_sum
          (selected_observations ys y
             (bucket_rows newDate xAxis timeGrouping (originalKey r) rows)))))) \<and>
     processedData newDate localeCompare (dated_rows newDate xAxis rows) xAxis yAxis selectedYAxes
       viewMode timeGrouping MSum isDateAxis = Inr out"
proof -
  obtain cmp where p: "\<And>rows. processedData newDate localeCompare rows xAxis yAxis selectedYAxes
      viewMode timeGrouping MSum True =
        Inr (sort_by cmp (map (aggregate_group xAxis ys MSum)
               (foldl (group_row newDate xAxis ys timeGrouping) [] rows)))"
    using processedData_grouped [OF assms(1) assms(4) assms(3)] by blast
  define out where "out = sort_by cmp (map (aggregate_group xAxis ys MSum)
               (foldl (group_row newDate xAxis ys timeGrouping) [] rows))"
  note g = grouped_output [OF assms(4) assms(5) out_def]
  have v: "map_of r y = Some (JNum (toFixed2 (js_sum
          (selected_observations ys y
             (bucket_rows newDate xAxis timeGrouping (originalKey r) rows)))))"
    if "r \<in> set out" "y \<in> set ys" for r y
    using g(3) [OF that] by (simp only: bucket_value_MSum)
  have d: "processedData newDate localeCompare (dated_rows newDate xAxis rows) xAxis yAxis
      selectedYAxes viewMode timeGrouping MSum True = Inr out"
    by (simp add: p grouped_dated out_def)
  have i: "isDateAxis = True" using assms(2) by simp
  show ?thesis
    unfolding i using p [of rows] g(1) g(2) v d unfolding out_def [symmetric]
    by (intro exI [of _ out]) simp
qed


text \<open>
  C8, as the code has it. Under the same conditions with the count as method: the value
  of a selected column in an output row is the number of rows of the bucket when the
  column has a numeric observation in one of them, and 0 when it has none; the number of
  rows of a bucket is at most the number of input rows; and the numbers of rows of the
  buckets add up to the number of rows whose time value parses as a date.
\<close>

theorem processedData_count:
  assumes "timeGrouping \<noteq> none" and "isDateAxis"
    and "ys = (if viewMode = multi then selectedYAxes else [yAxis])"
    and "distinct ys" and "''_originalKey'' \<notin> set ys" and "''__proto__'' \<notin> set ys"
  shows "\<exists>out.
     processedData newDate localeCompare rows xAxis yAxis selectedYAxes viewMode timeGrouping
       MCount isDateAxis = Inr out \<and>
     distinct (map originalKey out) \<and>
     set (map originalKey out) = {k. \<exists>r\<in>set rows. bucket_key newDate xAxis timeGrouping r = Some k} \<and>
     (\<forall>r\<in>set out. \<forall>y\<in>set ys.
        map_of r y = Some (JNum (Num (of_nat
          (if observations y (bucket_rows newDate xAxis timeGrouping (originalKey r) rows) = [] then 0
           else length (bucket_rows newDate xAxis timeGrouping (originalKey r) rows))))) \<and>
        length (bucket_rows newDate xAxis timeGrouping (originalKey r) rows) \<le> length rows) \<and>
     (\<Sum>r\<leftarrow>out. length (bucket_rows newDate xAxis timeGrouping (originalKey r) rows)) =
        length (dated_rows newDate xAxis rows)"
proof -
  obtain cmp where p: "\<And>rows. processedData newDate localeCompare rows xAxis yAxis selectedYAxes
      viewMode timeGrouping MCount True =
        Inr (sort_by cmp (map (aggregate_group xAxis ys MCount)
               (foldl (group_row newDate xAxis ys timeGrouping) [] rows)))"
    using processedData_grouped [OF assms(1) assms(5) assms(3)] by blast
  define out where "out = sort_by cmp (map (aggregate_group xAxis ys MCount)
               (foldl (group_row newDate xAxis ys timeGrouping) [] rows))"
  note g = grouped_output [OF assms(5) assms(6) out_def]
  have v: "map_of r y = Some (JNum (Num (of_nat
          (if observations y (bucket_rows newDate xAxis timeGrouping (originalKey r) rows) = [] then 0
           else length (bucket_rows newDate xAxis timeGrouping (originalKey r) rows))))) \<and>
        length (bucket_rows newDate xAxis timeGrouping (originalKey r) rows) \<le> length rows"
    if "r \<in> set out" "y \<in> set ys" for r y
  proof -
    have "bucket_value MCount obs n = Num (of_nat (if obs = [] then 0 else n))" for obs n
      by (simp add: bucket_value_def zero_jsnum_def)
    then have "map_of r y = Some (JNum (Num (of_nat
          (if observations y (bucket_rows newDate xAxis timeGrouping (originalKey r) rows) = [] then 0
           else length (bucket_rows newDate xAxis timeGrouping (originalKey r) rows)))))"
      using g(3) [OF that] selected_observations_distinct [OF assms(4) that(2)]
      by (simp only: toFixed2_of_nat)
    moreover have "length (bucket_rows newDate xAxis timeGrouping (originalKey r) rows) \<le> length rows"
      by (simp add: bucket_rows_def)
    ultimately show ?thesis by simp
  qed
  have s: "(\<Sum>r\<leftarrow>out. length (bucket_rows newDate xAxis timeGrouping (originalKey r) rows)) =
        length (dated_rows newDate xAxis rows)"
    using bucket_counts [OF g(1), of rows newDate xAxis timeGrouping] g(2)
    by (simp add: comp_def)
  have i: "isDateAxis = True" using assms(2) by simp
  show ?thesis
    unfolding i using p [of rows] g(1) g(2) v s unfolding out_def [symmetric]
    by (intro exI [of _ out]) simp
qed


subsection \<open>Examples\<close>

lemmas agg_eval = processedData_def group_row_def parseDate_def example_newDate_def getDay_def
  show_nat.simps DAY_ABBR_def accumulate_row_def push_value_def aggregate_group_def sort_by_def
  indexOf_def Let_def zero_jsnum_def set_property_def js_sum_def
  round64_numeral round64_one round64_zero

lemma toFixed2_numeral: "toFixed2 (Num (numeral n)) = Num (numeral n)"
  using toFixed2_of_nat [of "numeral n"] by simp

lemma toFixed2_one: "toFixed2 (Num 1) = Num 1"
  using toFixed2_of_nat [of 1] by simp

lemma toFixed2_zero: "toFixed2 (Num 0) = Num 0"
  by simp

text \<open>Three values of the examples: \<open>1 / 1024\<close> and \<open>10 ^ 16\<close> are binary64 values, the
  first prints as \<^verbatim>\<open>0.00\<close>, and \<open>10 ^ 16 + 1\<close> lies half way between two binary64 values
  and rounds to \<open>10 ^ 16\<close>, whose significand is the even one.\<close>

lemma round64_1024th: "round64 (1 / 1024) = Num (1 / 1024)"
  using round64_dyadic [of 1 "- 10"] by simp

lemma toFixed2_1024th: "toFixed2 (Num (1 / 1024)) = Num 0"
proof -
  have "\<lfloor>(1::rat) / 1024\<rfloor> = 0" "\<lfloor>(153::rat) / 256\<rfloor> = 0"
    by (rule floor_unique, simp, simp)+
  then show ?thesis
    by (simp add: round64_zero)
qed

lemma round64_1e16: "round64 10000000000000000 = Num 10000000000000000"
  using round64_dyadic [of 152587890625 16] by simp

lemma round64_1e16_plus_1: "round64 10000000000000001 = Num 10000000000000000"
proof -
  have "round_half_even (10000000000000001 / 2 powi (53 - 52)) = 5000000000000000"
    by (rule round_half_even_tie) simp_all
  from round64_normal [OF _ _ _ _ this] show ?thesis by simp
qed

text \<open>
  C7 as stated fails. One row on a Monday with the value \<open>1 / 1024\<close> gives one bucket
  whose sum is put out as 0, so the bucket sums of the output add up to 0, while the
  observations add up to \<open>1 / 1024\<close>. And whole numbers, which the rounding to two
  decimals leaves alone, fail as well: of the four rows Monday \<open>10 ^ 16\<close>, Monday 1,
  Tuesday 1, Monday \<open>- 10 ^ 16\<close> the Monday bucket has the sum 0, the 1 being lost in
  binary64 when added to \<open>10 ^ 16\<close>, and the Tuesday bucket the sum 1; these add up to 1,
  whereas the four observations add up to 0 when summed like the buckets, in the order of
  the rows, and to 2 as rationals.
\<close>

theorem processedData_sum_rounded:
  "processedData example_newDate (\<lambda>a b. 0) [[(''t'', JStr ''1970-01-05''), (''v'', JNum (Num (1 / 1024)))]]
     ''t'' ''v'' [] single days MSum True =
     Inr [[(''t'', JStr ''Mon''), (''_originalKey'', JStr ''1''), (''v'', JNum (Num 0))]] \<and>
   js_sum (observations ''v'' [[(''t'', JStr ''Mon''), (''_originalKey'', JStr ''1''), (''v'', JNum (Num 0))]])
     = Num 0 \<and>
   js_sum (observations ''v''
      (dated_rows example_newDate ''t'' [[(''t'', JStr ''1970-01-05''), (''v'', JNum (Num (1 / 1024)))]]))
     = Num (1 / 1024) \<and>
   processedData example_newDate (\<lambda>a b. 0)
     [[(''t'', JStr ''1970-01-05''), (''v'', JNum (Num 10000000000000000))],
      [(''t'', JStr ''1970-01-05''), (''v'', JNum (Num 1))],
      [(''t'', JStr ''1970-01-06''), (''v'', JNum (Num 1))],
      [(''t'', JStr ''1970-01-05''), (''v'', JNum (Num (- 10000000000000000)))]]
     ''t'' ''v'' [] single days MSum True =
     Inr [[(''t'', JStr ''Mon''), (''_originalKey'', JStr ''1''), (''v'', JNum (Num 0))],
          [(''t'', JStr ''Tue''), (''_originalKey'', JStr ''2''), (''v'', JNum (Num 1))]] \<and>
   js_sum (observations ''v''
      [[(''t'', JStr ''Mon''), (''_originalKey'', JStr ''1''), (''v'', JNum (Num 0))],
       [(''t'', JStr ''Tue''), (''_originalKey'', JStr ''2''), (''v'', JNum (Num 1))]]) = Num 1 \<and>
   js_sum (observations ''v''
      (dated_rows example_newDate ''t''
        [[(''t'', JStr ''1970-01-05''), (''v'', JNum (Num 10000000000000000))],
         [(''t'', JStr ''1970-01-05''), (''v'', JNum (Num 1))],
         [(''t'', JStr ''1970-01-06''), (''v'', JNum (Num 1))],
         [(''t'', JStr ''1970-01-05''), (''v'', JNum (Num (- 10000000000000000)))]])) = Num 0"
proof -
  have 1: "processedData example_newDate (\<lambda>a b. 0)
     [[(''t'', JStr ''1970-01-05''), (''v'', JNum (Num (1 / 1024)))]]
     ''t'' ''v'' [] single days MSum True =
     Inr [[(''t'', JStr ''Mon''), (''_originalKey'', JStr ''1''), (''v'', JNum (Num 0))]]"
    by (simp add: agg_eval round64_1024th toFixed2_1024th del: toFixed2.simps)
  have 2: "js_sum (observations ''v''
      [[(''t'', JStr ''Mon''), (''_originalKey'', JStr ''1''), (''v'', JNum (Num 0))]]) = Num 0"
    by (simp add: js_sum_def zero_jsnum_def round64_zero)
  have 3: "js_sum (observations ''v''
      (dated_rows example_newDate ''t'' [[(''t'', JStr ''1970-01-05''), (''v'', JNum (Num (1 / 1024)))]]))
     = Num (1 / 1024)"
    by (simp add: dated_rows_def parseDate_def example_newDate_def js_sum_def zero_jsnum_def
        round64_1024th)
  have 4: "processedData example_newDate (\<lambda>a b. 0)
     [[(''t'', JStr ''1970-01-05''), (''v'', JNum (Num 10000000000000000))],
      [(''t'', JStr ''1970-01-05''), (''v'', JNum (Num 1))],
      [(''t'', JStr ''1970-01-06''), (''v'', JNum (Num 1))],
      [(''t'', JStr ''1970-01-05''), (''v'', JNum (Num (- 10000000000000000)))]]
     ''t'' ''v'' [] single days MSum True =
     Inr [[(''t'', JStr ''Mon''), (''_originalKey'', JStr ''1''), (''v'', JNum (Num 0))],
          [(''t'', JStr ''Tue''), (''_originalKey'', JStr ''2''), (''v'', JNum (Num 1))]]"
    by (simp add: agg_eval round64_1e16 round64_1e16_plus_1 toFixed2_one toFixed2_zero
        del: toFixed2.simps)
  have 5: "js_sum (observations ''v''
      [[(''t'', JStr ''Mon''), (''_originalKey'', JStr ''1''), (''v'', JNum (Num 0))],
       [(''t'', JStr ''Tue''), (''_originalKey'', JStr ''2''), (''v'', JNum (Num 1))]]) = Num 1"
    by (simp add: js_sum_def zero_jsnum_def round64_zero round64_one)
  have 6: "js_sum (observations ''v''
      (dated_rows example_newDate ''t''
        [[(''t'', JStr ''1970-01-05''), (''v'', JNum (Num 10000000000000000))],
         [(''t'', JStr ''1970-01-05''), (''v'', JNum (Num 1))],
         [(''t'', JStr ''1970-01-06''), (''v'', JNum (Num 1))],
         [(''t'', JStr ''1970-01-05''), (''v'', JNum (Num (- 10000000000000000)))]])) = Num 0"
    by (simp add: dated_rows_def parseDate_def example_newDate_def js_sum_def zero_jsnum_def
        round64_1e16 round64_1e16_plus_1 round64_zero)
  from 1 2 3 4 5 6 show ?thesis
    by (intro conjI)
qed

text \<open>C7 at four rows, a Tuesday, two Mondays and one without a date, with the value
  column selected twice: the buckets Mon and Tue, where every observation counts twice,
  with the values 30 and 40.\<close>

theorem processedData_sum_witness:
  "processedData example_newDate (\<lambda>a b. 0)
     [[(''t'', JStr ''1970-01-06''), (''v'', JNum (Num 20))],
      [(''t'', JStr ''1970-01-05''), (''v'', JNum (Num 10))],
      [(''t'', JStr ''1970-01-05''), (''v'', JNum (Num 5))],
      [(''t'', JStr ''never''), (''v'', JNum (Num 7))]]
     ''t'' ''v'' [''v'', ''v''] multi days MSum True =
     Inr [[(''t'', JStr ''Mon''), (''_originalKey'', JStr ''1''), (''v'', JNum (Num 30))],
          [(''t'', JStr ''Tue''), (''_originalKey'', JStr ''2''), (''v'', JNum (Num 40))]] \<and>
   toFixed2 (js_sum (selected_observations [''v'', ''v''] ''v''
      (bucket_rows example_newDate ''t'' days ''1''
        [[(''t'', JStr ''1970-01-06''), (''v'', JNum (Num 20))],
         [(''t'', JStr ''1970-01-05''), (''v'', JNum (Num 10))],
         [(''t'', JStr ''1970-01-05''), (''v'', JNum (Num 5))],
         [(''t'', JStr ''never''), (''v'', JNum (Num 7))]]))) = Num 30 \<and>
   selected_observations [''v'', ''v''] ''v''
      (bucket_rows example_newDate ''t'' days ''1''
        [[(''t'', JStr ''1970-01-06''), (''v'', JNum (Num 20))],
         [(''t'', JStr ''1970-01-05''), (''v'', JNum (Num 10))],
         [(''t'', JStr ''1970-01-05''), (''v'', JNum (Num 5))],
         [(''t'', JStr ''never''), (''v'', JNum (Num 7))]]) = [Num 10, Num 10, Num 5, Num 5]"
proof -
  let ?rows = "[[(''t'', JStr ''1970-01-06''), (''v'', JNum (Num 20))],
      [(''t'', JStr ''1970-01-05''), (''v'', JNum (Num 10))],
      [(''t'', JStr ''1970-01-05''), (''v'', JNum (Num 5))],
      [(''t'', JStr ''never''), (''v'', JNum (Num 7))]]"
  let ?mon = "[(''t'', JStr ''Mon''), (''_originalKey'', JStr ''1''), (''v'', JNum (Num 30))]"
  let ?tue = "[(''t'', JStr ''Tue''), (''_originalKey'', JStr ''2''), (''v'', JNum (Num 40))]"
  have e: "processedData example_newDate (\<lambda>a b. 0) ?rows ''t'' ''v'' [''v'', ''v''] multi days MSum True =
      Inr [?mon, ?tue]"
    by (simp add: agg_eval toFixed2_numeral del: toFixed2.simps)
  have o: "selected_observations [''v'', ''v''] ''v''
      (bucket_rows example_newDate ''t'' days ''1'' ?rows) = [Num 10, Num 10, Num 5, Num 5]"
    by (simp add: bucket_rows_def bucket_key_def parseDate_def example_newDate_def getDay_def
        show_nat.simps)
  have "\<exists>out. processedData example_newDate (\<lambda>a b. 0) ?rows ''t'' ''v'' [''v'', ''v''] multi days MSum True
        = Inr out \<and>
      (\<forall>r\<in>set out. \<forall>y\<in>set [''v'', ''v''].
        map_of r y = Some (JNum (toFixed2 (js_sum
          (selected_observations [''v'', ''v''] y
             (bucket_rows example_newDate ''t'' days (originalKey r) ?rows))))))"
    using processedData_sum [where timeGrouping = days and isDateAxis = True and ys = "[''v'', ''v'']"
        and viewMode = multi and yAxis = "''v''" and selectedYAxes = "[''v'', ''v'']"
        and newDate = example_newDate and localeCompare = "\<lambda>a b. 0" and rows = ?rows
        and xAxis = "''t''"]
    by simp blast
  then have "\<forall>r\<in>set [?mon, ?tue]. \<forall>y\<in>set [''v'', ''v''].
        map_of r y = Some (JNum (toFixed2 (js_sum
          (selected_observations [''v'', ''v''] y
             (bucket_rows example_newDate ''t'' days (originalKey r) ?rows)))))"
    unfolding e by blast
  then have "map_of ?mon ''v'' = Some (JNum (toFixed2 (js_sum
          (selected_observations [''v'', ''v''] ''v''
             (bucket_rows example_newDate ''t'' days (originalKey ?mon) ?rows)))))"
    by (simp del: toFixed2.simps selected_observations_simps)
  then have "toFixed2 (js_sum (selected_observations [''v'', ''v''] ''v''
      (bucket_rows example_newDate ''t'' days ''1'' ?rows))) = Num 30"
    by (simp add: originalKey_def del: toFixed2.simps selected_observations_simps)
  with e o show ?thesis
    by (intro conjI)
qed

text \<open>
  C8 as stated fails: one row on a Monday whose value column holds the text \<^verbatim>\<open>n/a\<close>
  gives one bucket to which one row contributes, and the output value of the column
  is 0.
\<close>

theorem processedData_count_no_observation:
  "processedData example_newDate (\<lambda>a b. 0) [[(''t'', JStr ''1970-01-05''), (''v'', JStr ''n/a'')]]
     ''t'' ''v'' [] single days MCount True =
     Inr [[(''t'', JStr ''Mon''), (''_originalKey'', JStr ''1''), (''v'', JNum (Num 0))]] \<and>
   length (bucket_rows example_newDate ''t'' days ''1''
      [[(''t'', JStr ''1970-01-05''), (''v'', JStr ''n/a'')]]) = 1"
  by (simp add: agg_eval bucket_rows_def bucket_key_def)

text \<open>C8 at the four rows of above: the counts 2 and 1 of the buckets Mon and Tue, which
  add up to the 3 dated rows.\<close>

theorem processedData_count_witness:
  "processedData example_newDate (\<lambda>a b. 0)
     [[(''t'', JStr ''1970-01-06''), (''v'', JNum (Num 20))],
      [(''t'', JStr ''1970-01-05''), (''v'', JNum (Num 10))],
      [(''t'', JStr ''1970-01-05''), (''v'', JNum (Num 5))],
      [(''t'', JStr ''never''), (''v'', JNum (Num 7))]]
     ''t'' ''v'' [] single days MCount True =
     Inr [[(''t'', JStr ''Mon''), (''_originalKey'', JStr ''1''), (''v'', JNum (Num 2))],
          [(''t'', JStr ''Tue''), (''_originalKey'', JStr ''2''), (''v'', JNum (Num 1))]] \<and>
   (\<Sum>r\<leftarrow>[[(''t'', JStr ''Mon''), (''_originalKey'', JStr ''1''), (''v'', JNum (Num 2))],
          [(''t'', JStr ''Tue''), (''_originalKey'', JStr ''2''), (''v'', JNum (Num 1))]].
      length (bucket_rows example_newDate ''t'' days (originalKey r)
        [[(''t'', JStr ''1970-01-06''), (''v'', JNum (Num 20))],
         [(''t'', JStr ''1970-01-05''), (''v'', JNum (Num 10))],
         [(''t'', JStr ''1970-01-05''), (''v'', JNum (Num 5))],
         [(''t'', JStr ''never''), (''v'', JNum (Num 7))]])) = 3"
proof -
  let ?rows = "[[(''t'', JStr ''1970-01-06''), (''v'', JNum (Num 20))],
      [(''t'', JStr ''1970-01-05''), (''v'', JNum (Num 10))],
      [(''t'', JStr ''1970-01-05''), (''v'', JNum (Num 5))],
      [(''t'', JStr ''never''), (''v'', JNum (Num 7))]]"
  let ?out = "[[(''t'', JStr ''Mon''), (''_originalKey'', JStr ''1''), (''v'', JNum (Num 2))],
          [(''t'', JStr ''Tue''), (''_originalKey'', JStr ''2''), (''v'', JNum (Num 1))]]"
  have e: "processedData example_newDate (\<lambda>a b. 0) ?rows ''t'' ''v'' [] single days MCount True = Inr ?out"
    by (simp add: agg_eval toFixed2_numeral toFixed2_one del: toFixed2.simps)
  have t: "length (dated_rows example_newDate ''t'' ?rows) = 3"
    by (simp add: dated_rows_def parseDate_def example_newDate_def)
  have "\<exists>out. processedData example_newDate (\<lambda>a b. 0) ?rows ''t'' ''v'' [] single days MCount True = Inr out \<and>
      (\<Sum>r\<leftarrow>out. length (bucket_rows example_newDate ''t'' days (originalKey r) ?rows)) =
          length (dated_rows example_newDate ''t'' ?rows)"
    using processedData_count [where timeGrouping = days and isDateAxis = True and ys = "[''v'']"
        and viewMode = single and yAxis = "''v''" and selectedYAxes = "[]"
        and newDate = example_newDate and localeCompare = "\<lambda>a b. 0" and rows = ?rows
        and xAxis = "''t''"]
    by simp blast
  then have "(\<Sum>r\<leftarrow>?out. length (bucket_rows example_newDate ''t'' days (originalKey r) ?rows)) =
          length (dated_rows example_newDate ''t'' ?rows)"
    unfolding e by blast
  with e t show ?thesis by simp
qed

text \<open>The scenario of two rows on a Monday with the values 10 and 20 and the average as
  method: one bucket, labelled Mon, with the value 15.\<close>

lemma processedData_average_scenario:
  "processedData example_newDate (\<lambda>a b. 0)
     [[(''t'', JStr ''1970-01-05''), (''v'', JNum (Num 10))],
      [(''t'', JStr ''1970-01-05''), (''v'', JNum (Num 20))]]
     ''t'' ''v'' [] single days MAverage True =
     Inr [[(''t'', JStr ''Mon''), (''_originalKey'', JStr ''1''), (''v'', JNum (Num 15))]]"
  by (simp add: agg_eval toFixed2_numeral del: toFixed2.simps)


end
